theory Spec2Isabelle
  imports Main "HOL-Library.Word"
begin

unbundle bit_operations_syntax

section \<open>Machine types and errors\<close>

text \<open>
  The embedding follows \<^verbatim>\<open>CompactionBasedInputProcessor_impl.h\<close>. Fixed-width C++
  integers are words: \<^verbatim>\<open>unsigned char\<close> is \<open>8 word\<close>, \<^verbatim>\<open>uint32_t\<close> and
  \<^verbatim>\<open>int32_t\<close> are \<open>32 word\<close>, \<^verbatim>\<open>int64_t\<close> is \<open>64 word\<close>; a signed
  value is read with \<open>sint\<close>, an unsigned one with \<open>unat\<close>. Positions in a vector
  and row counts are \<open>nat\<close>. Entries of the union map and of the intersection map
  (\<^verbatim>\<open>int32_t\<close>, with the sentinel \<open>-1\<close>) are \<open>int\<close>: the only arithmetic on them
  is a counter bounded by the row count, which is itself an \<^verbatim>\<open>int32_t\<close>.
\<close>

type_synonym u8 = "8 word"
type_synonym u32 = "32 word"
type_synonym i32 = "32 word"
type_synonym i64 = "64 word"

text \<open>
  \<open>OutOfRange\<close> is the \<^verbatim>\<open>std::out_of_range\<close> thrown by \<^verbatim>\<open>vector::at\<close>.
  \<open>OutOfBounds\<close> stands for an unchecked access (\<^verbatim>\<open>operator[]\<close>, pointer
  arithmetic) outside a vector, which is undefined behaviour in the source.
  \<open>RuntimeError\<close> is \<^verbatim>\<open>std::runtime_error\<close> with its message.
\<close>

datatype error = OutOfRange | OutOfBounds | RuntimeError string

datatype Role = PUBLISHER | PARTNER

section \<open>Row schemas\<close>

record PartnerRow =
  anyValidPurchaseTimestamp :: bool
  cohortGroupId :: u32

record PartnerConversionRow =
  purchaseTimestamp :: u32
  thresholdTimestamp :: u32
  purchaseValue :: i32
  purchaseValueSquared :: i64

record PublisherRow =
  breakdownId :: bool
  controlPopulation :: bool
  isValidOpportunityTimestamp :: bool
  testReach :: bool
  opportunityTimestamp :: u32

text \<open>
  Modelled from the spec: the constants \<^verbatim>\<open>PUBLISHER_ROW_BYTES\<close>,
  \<^verbatim>\<open>PARTNER_ROW_SIZE_BYTES\<close> and \<^verbatim>\<open>PARTNER_CONVERSION_ROW_SIZE_BYTES\<close> are
  declared in the class header, which is not among the sources. The spec gives one
  flag byte and four timestamp bytes for a publisher row, one flag byte and four
  group-id bytes for a partner row, and 4 + 4 + 4 + 8 bytes for a conversion block.
\<close>

definition PUBLISHER_ROW_BYTES :: nat where
  "PUBLISHER_ROW_BYTES = 5"

definition PARTNER_ROW_SIZE_BYTES :: nat where
  "PARTNER_ROW_SIZE_BYTES = 5"

definition PARTNER_CONVERSION_ROW_SIZE_BYTES :: nat where
  "PARTNER_CONVERSION_ROW_SIZE_BYTES = 20"

section \<open>Byte helpers\<close>

text \<open>
  Modelled from the spec: \<^verbatim>\<open>extractByte\<close> is declared in the class header, which
  is not among the sources. The spec encodes every integer field byte by byte, little-endian:
  byte \<open>k\<close> of a value is its bits \<open>8k .. 8k+7\<close>.
\<close>

definition extractByte :: "'a::len word \<Rightarrow> nat \<Rightarrow> u8" where
  "extractByte val byte = ucast (drop_bit (8 * byte) val)"

text \<open>
  Modelled from the spec: \<^verbatim>\<open>reconstructFromBytes<T>\<close> is declared in the class
  header, which is not among the sources. The spec's decode reads a field of
  \<^verbatim>\<open>sizeof(T)\<close> bytes at a fixed offset with the byte order of the encoding: byte
  \<open>i\<close> of the buffer from the offset on supplies bits \<open>8i .. 8i+7\<close>. The first
  argument is \<^verbatim>\<open>sizeof(T)\<close>, the second the buffer, the third the offset added to
  \<^verbatim>\<open>data()\<close>.
\<close>

definition reconstructFromBytes :: "nat \<Rightarrow> u8 list \<Rightarrow> nat \<Rightarrow> 'a::len word" where
  "reconstructFromBytes size_of data off =
     fold (\<lambda>i val. val OR push_bit (8 * i) (ucast (data ! (off + i)))) [0..<size_of] 0"

section \<open>Encoding a row\<close>

text \<open>
  The publisher branch of \<^verbatim>\<open>preparePlaintextData\<close>, lines 176 to 185: a buffer of
  \<^verbatim>\<open>PUBLISHER_ROW_BYTES\<close> zero bytes, the flag byte written at index 0, and the loop
  over the four bytes of the timestamp.
\<close>

definition serializePublisherRow :: "PublisherRow \<Rightarrow> u8 list" where
  "serializePublisherRow publisherRow =
     (let serialized = replicate PUBLISHER_ROW_BYTES (0 :: u8);
          serialized = serialized
            [0 := of_bool (breakdownId publisherRow)
               OR push_bit 1 (of_bool (controlPopulation publisherRow))
               OR push_bit 2 (of_bool (isValidOpportunityTimestamp publisherRow))
               OR push_bit 3 (of_bool (testReach publisherRow))]
      in fold (\<lambda>byte s. s[1 + byte := extractByte (opportunityTimestamp publisherRow) byte])
           [0..<4] serialized)"

text \<open>
  The body of the loop over \<open>j\<close> at lines 128 to 142: the loop over four bytes writes
  three fields at once, the loop over eight bytes writes the squared value.
\<close>

definition writeConversion :: "nat \<Rightarrow> PartnerConversionRow \<Rightarrow> u8 list \<Rightarrow> u8 list" where
  "writeConversion j c serialized =
     (let serialized = fold (\<lambda>byte s. s
            [5 + j * PARTNER_CONVERSION_ROW_SIZE_BYTES + byte :=
               extractByte (purchaseTimestamp c) byte,
             9 + j * PARTNER_CONVERSION_ROW_SIZE_BYTES + byte :=
               extractByte (thresholdTimestamp c) byte,
             13 + j * PARTNER_CONVERSION_ROW_SIZE_BYTES + byte :=
               extractByte (purchaseValue c) byte]) [0..<4] serialized
      in fold (\<lambda>byte s. s
            [17 + j * PARTNER_CONVERSION_ROW_SIZE_BYTES + byte :=
               extractByte (purchaseValueSquared c) byte]) [0..<8] serialized)"

text \<open>
  Lines 118 to 142. \<open>rowConversions\<close> is the vector of \<open>numConversionsPerUser\<close>
  conversion rows built at lines 105 to 116.
\<close>

definition serializePartnerRow ::
  "nat \<Rightarrow> PartnerRow \<Rightarrow> PartnerConversionRow list \<Rightarrow> u8 list" where
  "serializePartnerRow numConversionsPerUser partnerRow rowConversions =
     (let serialized = replicate
            (PARTNER_ROW_SIZE_BYTES + PARTNER_CONVERSION_ROW_SIZE_BYTES * numConversionsPerUser)
            (0 :: u8);
          serialized = serialized
            [0 := of_bool (anyValidPurchaseTimestamp partnerRow),
             1 := extractByte (cohortGroupId partnerRow) 0,
             2 := extractByte (cohortGroupId partnerRow) 1,
             3 := extractByte (cohortGroupId partnerRow) 2,
             4 := extractByte (cohortGroupId partnerRow) 3]
      in fold (\<lambda>j s. writeConversion j (rowConversions ! j) s)
           [0..<numConversionsPerUser] serialized)"

section \<open>Decoding a row\<close>

text \<open>
  The body of the loop of \<^verbatim>\<open>deserializeSecretSharedData\<close>, lines 330 to 363, on the
  byte vector of one row. The source reads the buffer unchecked; a buffer shorter than
  the row is the error \<open>OutOfBounds\<close>.
\<close>

definition deserializePublisherRow :: "u8 list \<Rightarrow> error + PublisherRow" where
  "deserializePublisherRow publisherByteShares =
     (if length publisherByteShares < 5 then Inl OutOfBounds
      else Inr \<lparr>
        breakdownId = (publisherByteShares ! 0 AND 1 \<noteq> 0),
        controlPopulation = (drop_bit 1 (publisherByteShares ! 0) AND 1 \<noteq> 0),
        isValidOpportunityTimestamp = (drop_bit 2 (publisherByteShares ! 0) AND 1 \<noteq> 0),
        testReach = (drop_bit 3 (publisherByteShares ! 0) AND 1 \<noteq> 0),
        opportunityTimestamp = reconstructFromBytes 4 publisherByteShares 1\<rparr>)"

definition deserializeConversion :: "u8 list \<Rightarrow> nat \<Rightarrow> PartnerConversionRow" where
  "deserializeConversion partnerByteShares j = \<lparr>
     purchaseTimestamp =
       reconstructFromBytes 4 partnerByteShares (5 + j * PARTNER_CONVERSION_ROW_SIZE_BYTES),
     thresholdTimestamp =
       reconstructFromBytes 4 partnerByteShares (9 + j * PARTNER_CONVERSION_ROW_SIZE_BYTES),
     purchaseValue =
       reconstructFromBytes 4 partnerByteShares (13 + j * PARTNER_CONVERSION_ROW_SIZE_BYTES),
     purchaseValueSquared =
       reconstructFromBytes 8 partnerByteShares (17 + j * PARTNER_CONVERSION_ROW_SIZE_BYTES)\<rparr>"

definition deserializePartnerRow ::
  "nat \<Rightarrow> u8 list \<Rightarrow> error + (PartnerRow \<times> PartnerConversionRow list)" where
  "deserializePartnerRow numConversionsPerUser partnerByteShares =
     (if length partnerByteShares < 5 + numConversionsPerUser * PARTNER_CONVERSION_ROW_SIZE_BYTES
      then Inl OutOfBounds
      else Inr (\<lparr>anyValidPurchaseTimestamp = (partnerByteShares ! 0 AND 1 \<noteq> 0),
                 cohortGroupId = reconstructFromBytes 4 partnerByteShares 1\<rparr>,
                map (deserializeConversion partnerByteShares) [0..<numConversionsPerUser]))"

section \<open>The input dataset\<close>

text \<open>
  \<^verbatim>\<open>InputData\<close> is declared outside the sources; the record has one field for each
  getter the processor calls.
\<close>

record InputData =
  getNumRows :: nat
  getDummyRows :: "bool list"
  getGroupIds :: "u32 list"
  getPurchaseTimestampArrays :: "u32 list list"
  getPurchaseValueArrays :: "i64 list list"
  getPurchaseValueSquaredArrays :: "i64 list list"
  getOpportunityTimestamps :: "u32 list"
  getControlPopulation :: "bool list"
  getTestPopulation :: "bool list"
  getNumImpressions :: "i64 list"
  getBreakdownIds :: "u32 list"

text \<open>
  Modelled from the spec: \<^verbatim>\<open>common::padArray\<close> and \<^verbatim>\<open>common::padNestedArrays\<close>
  are not among the sources. The spec says that variable-length arrays are padded to the
  dataset's row capacity with a fixed pad value; an array that already has the size is
  left as it is. Nothing is said about an array longer than the size: the model leaves
  it unchanged, and the theorems on derived fields are stated for a padded row that has
  exactly the size asked for.
\<close>

definition padArray :: "'a list \<Rightarrow> nat \<Rightarrow> 'a \<Rightarrow> 'a list" where
  "padArray inputArray padSize padValue =
     inputArray @ replicate (padSize - length inputArray) padValue"

definition padNestedArrays :: "'a list list \<Rightarrow> nat \<Rightarrow> nat \<Rightarrow> 'a \<Rightarrow> 'a list list" where
  "padNestedArrays inputArrays padSizeOuter padSizeInner padValue =
     padArray (map (\<lambda>inner. padArray inner padSizeInner padValue) inputArrays)
       padSizeOuter (replicate padSizeInner padValue)"

section \<open>Loops that can fail\<close>

fun foldE :: "('a \<Rightarrow> 's \<Rightarrow> error + 's) \<Rightarrow> 'a list \<Rightarrow> 's \<Rightarrow> error + 's" where
  "foldE f [] s = Inr s"
| "foldE f (x # xs) s = (case f x s of Inl e \<Rightarrow> Inl e | Inr s' \<Rightarrow> foldE f xs s')"

fun mapE :: "('a \<Rightarrow> error + 'b) \<Rightarrow> 'a list \<Rightarrow> error + 'b list" where
  "mapE f [] = Inr []"
| "mapE f (x # xs) =
     (case f x of
        Inl e \<Rightarrow> Inl e
      | Inr y \<Rightarrow> (case mapE f xs of Inl e \<Rightarrow> Inl e | Inr ys \<Rightarrow> Inr (y # ys)))"

section \<open>shuffleAndGetUnionMap\<close>

text \<open>
  Lines 25 to 40. \<open>randomPermutation\<close> is what \<^verbatim>\<open>secureRandomPermutation\<close>
  returned; it is a parameter. \<open>shuffleAssign\<close> is the assignment of lines 36 and 37
  for the position \<open>p = randomPermutation[i]\<close>, on the pair of \<open>unionMap\<close> and
  \<open>nonDummyRows\<close>; \<open>shuffleStep\<close> is one iteration of the loop.
\<close>

definition shuffleAssign ::
  "bool list \<Rightarrow> nat \<Rightarrow> int list \<times> int \<Rightarrow> error + int list \<times> int" where
  "shuffleAssign dummyRows p st =
     (case st of (unionMap, nonDummyRows) \<Rightarrow>
        if length dummyRows \<le> p \<or> length unionMap \<le> p then Inl OutOfBounds
        else if dummyRows ! p
             then Inr (unionMap[p := - 1], nonDummyRows)
             else Inr (unionMap[p := nonDummyRows], nonDummyRows + 1))"

definition shuffleStep ::
  "bool list \<Rightarrow> nat list \<Rightarrow> nat \<Rightarrow> int list \<times> int \<Rightarrow> error + int list \<times> int" where
  "shuffleStep dummyRows randomPermutation i st =
     (if length randomPermutation \<le> i then Inl OutOfBounds
      else shuffleAssign dummyRows (randomPermutation ! i) st)"

definition shuffleAndGetUnionMap :: "InputData \<Rightarrow> nat list \<Rightarrow> error + int list" where
  "shuffleAndGetUnionMap inputData randomPermutation =
     (let unionSize = getNumRows inputData;
          unionMap = replicate unionSize (0 :: int);
          dummyRows = getDummyRows inputData
      in case foldE (shuffleStep dummyRows randomPermutation) [0..<length unionMap]
                (unionMap, 0) of
           Inl e \<Rightarrow> Inl e
         | Inr (unionMap, nonDummyRows) \<Rightarrow> Inr unionMap)"

section \<open>preparePlaintextData\<close>

text \<open>Lines 60 to 65: one iteration of the loop that inverts the union map.\<close>

definition reverseUnionMapStep ::
  "int list \<Rightarrow> nat \<Rightarrow> nat list \<times> int \<Rightarrow> error + nat list \<times> int" where
  "reverseUnionMapStep unionMap i st =
     (case st of (reverseUnionMap, inputSize) \<Rightarrow>
        if 0 \<le> unionMap ! i then
          (if nat (unionMap ! i) < length reverseUnionMap
           then Inr (reverseUnionMap[nat (unionMap ! i) := i], max inputSize (unionMap ! i))
           else Inl OutOfBounds)
        else Inr (reverseUnionMap, inputSize))"

text \<open>\<^verbatim>\<open>vector::resize\<close>: truncate, or extend with value-initialised elements.\<close>

definition resize :: "nat list \<Rightarrow> nat \<Rightarrow> nat list" where
  "resize v n = take n v @ replicate (n - length v) 0"

text \<open>Lines 94 to 99.\<close>

definition anyValidPurchaseTimestampOf :: "u32 list \<Rightarrow> bool" where
  "anyValidPurchaseTimestampOf purchaseTimestamps =
     fold (\<lambda>purchaseTs anyValid. anyValid \<or> 0 < purchaseTs) purchaseTimestamps False"

text \<open>
  Lines 105 to 116. \<open>window\<close> is \<^verbatim>\<open>kPurchaseTimestampThresholdWindow\<close>, a constant
  declared outside the sources; the sum is stored in a \<^verbatim>\<open>uint32_t\<close> field, so only
  its value modulo \<open>2^32\<close> matters. The cast \<^verbatim>\<open>(int32_t)\<close> of the 64-bit purchase
  value is \<open>ucast\<close>.
\<close>

definition makeRowConversions ::
  "nat \<Rightarrow> u32 \<Rightarrow> u32 list \<Rightarrow> i64 list \<Rightarrow> i64 list \<Rightarrow> PartnerConversionRow list" where
  "makeRowConversions numConversionsPerUser window purchaseTimestamps purchaseValues
       purchaseValuesSquared =
     map (\<lambda>j. \<lparr>
       purchaseTimestamp = purchaseTimestamps ! j,
       thresholdTimestamp =
         (if 0 < purchaseTimestamps ! j then purchaseTimestamps ! j + window else 0),
       purchaseValue = ucast (purchaseValues ! j),
       purchaseValueSquared = purchaseValuesSquared ! j\<rparr>) [0..<numConversionsPerUser]"

text \<open>
  The body of the loop at lines 91 to 145 for one compacted position. The padded arrays
  are read with \<^verbatim>\<open>operator[]\<close>.
\<close>

definition partnerPlaintextRow ::
  "nat \<Rightarrow> u32 \<Rightarrow> u32 list \<Rightarrow> u32 list list \<Rightarrow> i64 list list \<Rightarrow> i64 list list \<Rightarrow>
   nat \<Rightarrow> error + u8 list" where
  "partnerPlaintextRow numConversionsPerUser window cohortIdsPadded purchaseTimestampsPadded
       purchaseValuesPadded purchaseValuesSquaredPadded inputIndex =
     (if length purchaseTimestampsPadded \<le> inputIndex \<or> length cohortIdsPadded \<le> inputIndex
         \<or> length purchaseValuesPadded \<le> inputIndex
         \<or> length purchaseValuesSquaredPadded \<le> inputIndex
      then Inl OutOfBounds
      else if length (purchaseTimestampsPadded ! inputIndex) < numConversionsPerUser
         \<or> length (purchaseValuesPadded ! inputIndex) < numConversionsPerUser
         \<or> length (purchaseValuesSquaredPadded ! inputIndex) < numConversionsPerUser
      then Inl OutOfBounds
      else Inr (serializePartnerRow numConversionsPerUser
        \<lparr>anyValidPurchaseTimestamp =
           anyValidPurchaseTimestampOf (purchaseTimestampsPadded ! inputIndex),
         cohortGroupId = cohortIdsPadded ! inputIndex\<rparr>
        (makeRowConversions numConversionsPerUser window
           (purchaseTimestampsPadded ! inputIndex) (purchaseValuesPadded ! inputIndex)
           (purchaseValuesSquaredPadded ! inputIndex))))"

text \<open>Lines 160 to 174, for an index inside every padded array.\<close>

definition makePublisherRow ::
  "u32 list \<Rightarrow> bool list \<Rightarrow> bool list \<Rightarrow> i64 list \<Rightarrow> u32 list \<Rightarrow> nat \<Rightarrow> PublisherRow" where
  "makePublisherRow opportunityTimestampsPadded controlPopulationPadded testPopulationPadded
       numImpressionsPadded breakdownIdPadded inputIndex = \<lparr>
     breakdownId = (breakdownIdPadded ! inputIndex \<noteq> 0),
     controlPopulation = controlPopulationPadded ! inputIndex,
     isValidOpportunityTimestamp =
       (0 < opportunityTimestampsPadded ! inputIndex
        \<and> (controlPopulationPadded ! inputIndex \<or> testPopulationPadded ! inputIndex)),
     testReach = (testPopulationPadded ! inputIndex \<and> 0 < sint (numImpressionsPadded ! inputIndex)),
     opportunityTimestamp = opportunityTimestampsPadded ! inputIndex\<rparr>"

text \<open>
  The body of the loop at lines 157 to 188. The four arrays read with \<^verbatim>\<open>at\<close>
  throw, the breakdown ids are read with \<^verbatim>\<open>operator[]\<close>.
\<close>

definition publisherPlaintextRow ::
  "u32 list \<Rightarrow> bool list \<Rightarrow> bool list \<Rightarrow> i64 list \<Rightarrow> u32 list \<Rightarrow> nat \<Rightarrow> error + u8 list" where
  "publisherPlaintextRow opportunityTimestampsPadded controlPopulationPadded
       testPopulationPadded numImpressionsPadded breakdownIdPadded inputIndex =
     (if length opportunityTimestampsPadded \<le> inputIndex
         \<or> length controlPopulationPadded \<le> inputIndex
         \<or> length testPopulationPadded \<le> inputIndex
         \<or> length numImpressionsPadded \<le> inputIndex
      then Inl OutOfRange
      else if length breakdownIdPadded \<le> inputIndex then Inl OutOfBounds
      else Inr (serializePublisherRow
        (makePublisherRow opportunityTimestampsPadded controlPopulationPadded
           testPopulationPadded numImpressionsPadded breakdownIdPadded inputIndex)))"

text \<open>
  Lines 50 to 192. \<open>inputSize\<close> starts at 0, takes the largest non-negative entry of
  the union map, and is incremented once after the loop.
\<close>

definition preparePlaintextData ::
  "Role \<Rightarrow> nat \<Rightarrow> u32 \<Rightarrow> InputData \<Rightarrow> int list \<Rightarrow> error + u8 list list" where
  "preparePlaintextData myRole numConversionsPerUser window inputData unionMap =
     (let unionSize = getNumRows inputData in
      case foldE (reverseUnionMapStep unionMap) [0..<length unionMap]
             (replicate (getNumRows inputData) 0, 0) of
        Inl e \<Rightarrow> Inl e
      | Inr (reverseUnionMap, inputSize) \<Rightarrow>
          let inputSize = nat (inputSize + 1);
              reverseUnionMap = resize reverseUnionMap inputSize
          in if myRole = PARTNER then
               mapE (\<lambda>i. partnerPlaintextRow numConversionsPerUser window
                      (padArray (getGroupIds inputData) unionSize 0)
                      (padNestedArrays (getPurchaseTimestampArrays inputData) unionSize
                         numConversionsPerUser 0)
                      (padNestedArrays (getPurchaseValueArrays inputData) unionSize
                         numConversionsPerUser 0)
                      (padNestedArrays (getPurchaseValueSquaredArrays inputData) unionSize
                         numConversionsPerUser 0)
                      (reverseUnionMap ! i)) [0..<inputSize]
             else
               mapE (\<lambda>i. publisherPlaintextRow
                      (padArray (getOpportunityTimestamps inputData) unionSize 0)
                      (padArray (getControlPopulation inputData) unionSize False)
                      (padArray (getTestPopulation inputData) unionSize False)
                      (padArray (getNumImpressions inputData) unionSize 0)
                      (padArray (getBreakdownIds inputData) unionSize 0)
                      (reverseUnionMap ! i)) [0..<inputSize])"

section \<open>compactData\<close>

text \<open>
  \<^verbatim>\<open>SecString\<close> is a type of the secret-sharing engine; the processor reads its batch
  size and hands its share bits to the extraction step.
\<close>

record SecString =
  getBatchSize :: nat
  extractStringShare :: "bool list list"

text \<open>
  The row exchanger \<^verbatim>\<open>dataProcessor_\<close> is an external collaborator: its two
  operations are parameters. A call is recorded with its arguments as the source passes
  them.
\<close>

datatype call =
  ProcessMyData "u8 list list" nat
| ProcessPeersData nat "int list" nat

record DataProcessor =
  processMyData :: "u8 list list \<Rightarrow> nat \<Rightarrow> SecString"
  processPeersData :: "nat \<Rightarrow> int list \<Rightarrow> nat \<Rightarrow> SecString"

fun perform :: "DataProcessor \<Rightarrow> call \<Rightarrow> SecString" where
  "perform dataProcessor (ProcessMyData plaintextData outputSize) =
     processMyData dataProcessor plaintextData outputSize"
| "perform dataProcessor (ProcessPeersData dataSize indexes dataWidth) =
     processPeersData dataProcessor dataSize indexes dataWidth"

text \<open>
  Lines 228 to 245: the call that produces \<open>publisherDataShares\<close> and the call that
  produces \<open>partnerDataShares\<close>, in this order for either role. \<open>publisherRows\<close>
  and \<open>partnerRows\<close> are the two results of \<^verbatim>\<open>common::shareIntFrom\<close>.
\<close>

definition exchangerCalls ::
  "Role \<Rightarrow> nat \<Rightarrow> nat \<Rightarrow> nat \<Rightarrow> int list \<Rightarrow> u8 list list \<Rightarrow> call \<times> call" where
  "exchangerCalls myRole numConversionsPerUser publisherRows partnerRows intersectionMap
       plaintextData =
     (if myRole = PUBLISHER then
        (ProcessMyData plaintextData (length intersectionMap),
         ProcessPeersData partnerRows intersectionMap
           (PARTNER_CONVERSION_ROW_SIZE_BYTES * numConversionsPerUser + PARTNER_ROW_SIZE_BYTES))
      else
        (ProcessPeersData publisherRows intersectionMap PUBLISHER_ROW_BYTES,
         ProcessMyData plaintextData (length intersectionMap)))"

text \<open>Lines 247 to 252: \<^verbatim>\<open>transform_reduce\<close> with an \<^verbatim>\<open>int\<close> accumulator.\<close>

definition expectedIntersectionSize :: "int list \<Rightarrow> int" where
  "expectedIntersectionSize intersectionMap =
     fold (\<lambda>ele left. left + (if ele = - 1 then 0 else 1)) intersectionMap 0"

text \<open>The decimal rendering of \<^verbatim>\<open>{}\<close> by \<^verbatim>\<open>folly::sformat\<close>.\<close>

fun string_of_nat :: "nat \<Rightarrow> string" where
  "string_of_nat n =
     (if n < 10 then [''0123456789'' ! n]
      else string_of_nat (n div 10) @ [''0123456789'' ! (n mod 10)])"

definition string_of_int :: "int \<Rightarrow> string" where
  "string_of_int k = (if k < 0 then ''-'' @ string_of_nat (nat (- k)) else string_of_nat (nat k))"

definition mismatchMessage :: "string \<Rightarrow> int \<Rightarrow> nat \<Rightarrow> string" where
  "mismatchMessage party expected actual =
     party @ '' rows do not match up expected intersection size. Expected '' @
     string_of_int expected @ '' but got '' @ string_of_nat actual @ '' rows.''"

text \<open>Lines 254 to 275 on the two buffers the exchanger returned.\<close>

definition checkIntersectionSize ::
  "int list \<Rightarrow> SecString \<Rightarrow> SecString \<Rightarrow> error + SecString \<times> SecString" where
  "checkIntersectionSize intersectionMap publisherDataShares partnerDataShares =
     (if expectedIntersectionSize intersectionMap \<noteq> int (getBatchSize publisherDataShares)
      then Inl (RuntimeError (mismatchMessage ''Publisher''
             (expectedIntersectionSize intersectionMap) (getBatchSize publisherDataShares)))
      else if expectedIntersectionSize intersectionMap \<noteq> int (getBatchSize partnerDataShares)
      then Inl (RuntimeError (mismatchMessage ''Partner''
             (expectedIntersectionSize intersectionMap) (getBatchSize partnerDataShares)))
      else Inr (publisherDataShares, partnerDataShares))"

text \<open>
  Lines 194 to 276. \<open>shareIntFrom sender receiver myRole myRows\<close> stands for
  \<^verbatim>\<open>common::shareIntFrom<schedulerId, 32, sender, receiver>(myRole, myRows)\<close>, an
  operation of the secret-sharing engine; it is a parameter. The result is the pair of
  exchanger calls made and what the function returns or throws.
\<close>

definition compactData ::
  "Role \<Rightarrow> nat \<Rightarrow> (Role \<Rightarrow> Role \<Rightarrow> Role \<Rightarrow> nat \<Rightarrow> nat) \<Rightarrow> DataProcessor \<Rightarrow>
   int list \<Rightarrow> u8 list list \<Rightarrow> (call \<times> call) \<times> (error + SecString \<times> SecString)" where
  "compactData myRole numConversionsPerUser shareIntFrom dataProcessor intersectionMap
       plaintextData =
     (let myRows = length plaintextData;
          publisherRows = shareIntFrom PUBLISHER PARTNER myRole myRows;
          partnerRows = shareIntFrom PARTNER PUBLISHER myRole myRows;
          calls = exchangerCalls myRole numConversionsPerUser publisherRows partnerRows
                    intersectionMap plaintextData;
          publisherDataShares = perform dataProcessor (fst calls);
          partnerDataShares = perform dataProcessor (snd calls)
      in (calls, checkIntersectionSize intersectionMap publisherDataShares partnerDataShares))"

text \<open>The output-size argument of a \<^verbatim>\<open>processMyData\<close> call.\<close>

fun outputSizeArgument :: "call \<Rightarrow> nat option" where
  "outputSizeArgument (ProcessMyData plaintextData outputSize) = Some outputSize"
| "outputSizeArgument (ProcessPeersData dataSize indexes dataWidth) = None"

text \<open>The call to \<^verbatim>\<open>processMyData\<close> among the two calls of a run.\<close>

definition myDataCall :: "Role \<Rightarrow> call \<times> call \<Rightarrow> call" where
  "myDataCall myRole calls = (if myRole = PUBLISHER then fst calls else snd calls)"

section \<open>The layout in the words of the specification\<close>

text \<open>
  The \<open>k\<close> little-endian bytes of a value, by arithmetic: byte \<open>i\<close> is the digit of
  weight \<open>256^i\<close> of the unsigned value.
\<close>

definition littleEndian :: "nat \<Rightarrow> 'a::len word \<Rightarrow> u8 list" where
  "littleEndian k w = map (\<lambda>i. word_of_nat ((unat w div 256 ^ i) mod 256)) [0..<k]"

definition conversionBlock :: "PartnerConversionRow \<Rightarrow> u8 list" where
  "conversionBlock c =
     littleEndian 4 (purchaseTimestamp c) @ littleEndian 4 (thresholdTimestamp c) @
     littleEndian 4 (purchaseValue c) @ littleEndian 8 (purchaseValueSquared c)"

definition partnerLayout :: "PartnerRow \<Rightarrow> PartnerConversionRow list \<Rightarrow> u8 list" where
  "partnerLayout r cs =
     [of_bool (anyValidPurchaseTimestamp r)] @ littleEndian 4 (cohortGroupId r) @
     concat (map conversionBlock cs)"

definition packedFlags :: "PublisherRow \<Rightarrow> u8" where
  "packedFlags r =
     of_bool (breakdownId r) + 2 * of_bool (controlPopulation r) +
     4 * of_bool (isValidOpportunityTimestamp r) + 8 * of_bool (testReach r)"

definition publisherLayout :: "PublisherRow \<Rightarrow> u8 list" where
  "publisherLayout r = [packedFlags r] @ littleEndian 4 (opportunityTimestamp r)"

text \<open>The flag byte as line 177 computes it.\<close>

definition flagByte :: "bool \<Rightarrow> bool \<Rightarrow> bool \<Rightarrow> bool \<Rightarrow> u8" where
  "flagByte b c v t =
     of_bool b OR push_bit 1 (of_bool c) OR push_bit 2 (of_bool v) OR push_bit 3 (of_bool t)"

section \<open>Stub collaborators for concrete runs\<close>

text \<open>
  A row exchanger that keeps the contract of the specification: \<^verbatim>\<open>processMyData\<close>
  returns as many rows as its output-size argument, \<^verbatim>\<open>processPeersData\<close> as many as
  there are matched entries among the indexes.
\<close>

definition exactDataProcessor :: DataProcessor where
  "exactDataProcessor = \<lparr>
     processMyData = (\<lambda>plaintextData outputSize.
       \<lparr>getBatchSize = outputSize, extractStringShare = []\<rparr>),
     processPeersData = (\<lambda>dataSize indexes dataWidth.
       \<lparr>getBatchSize = length (filter (\<lambda>ele. ele \<noteq> - 1) indexes),
        extractStringShare = []\<rparr>)\<rparr>"

text \<open>A row exchanger whose \<^verbatim>\<open>processPeersData\<close> returns one row fewer.\<close>

definition shortDataProcessor :: DataProcessor where
  "shortDataProcessor = \<lparr>
     processMyData = (\<lambda>plaintextData outputSize.
       \<lparr>getBatchSize = outputSize, extractStringShare = []\<rparr>),
     processPeersData = (\<lambda>dataSize indexes dataWidth.
       \<lparr>getBatchSize = length (filter (\<lambda>ele. ele \<noteq> - 1) indexes) - 1,
        extractStringShare = []\<rparr>)\<rparr>"

text \<open>A stand-in for \<^verbatim>\<open>shareIntFrom\<close> that hands back the caller's own count.\<close>

definition stubShareIntFrom :: "Role \<Rightarrow> Role \<Rightarrow> Role \<Rightarrow> nat \<Rightarrow> nat" where
  "stubShareIntFrom sender receiver myRole myRows = myRows"

text \<open>
  A partner dataset of five rows, two of them padding, with one conversion per user, and
  a publisher dataset of one row that is padding.
\<close>

definition fiveRowDataset :: InputData where
  "fiveRowDataset = \<lparr>
     getNumRows = 5,
     getDummyRows = [False, True, False, False, True],
     getGroupIds = [1, 0, 2, 3, 0],
     getPurchaseTimestampArrays = [[100], [0], [0], [4294967295], [0]],
     getPurchaseValueArrays = [[20], [0], [0], [4294967301], [0]],
     getPurchaseValueSquaredArrays = [[400], [0], [0], [25], [0]],
     getOpportunityTimestamps = [],
     getControlPopulation = [],
     getTestPopulation = [],
     getNumImpressions = [],
     getBreakdownIds = []\<rparr>"

definition paddingOnlyDataset :: InputData where
  "paddingOnlyDataset = \<lparr>
     getNumRows = 1,
     getDummyRows = [True],
     getGroupIds = [],
     getPurchaseTimestampArrays = [],
     getPurchaseValueArrays = [],
     getPurchaseValueSquaredArrays = [],
     getOpportunityTimestamps = [0],
     getControlPopulation = [False],
     getTestPopulation = [False],
     getNumImpressions = [0],
     getBreakdownIds = [0]\<rparr>"


section \<open>Bytes written and bytes read\<close>

lemma length_fold_update:
  "length (fold (\<lambda>b s. s[g b := f b]) bs s) = length s"
  by (induction bs arbitrary: s) auto

lemma write1_nth:
  "i < length s \<Longrightarrow>
   fold (\<lambda>b s. s[off + b := f b]) [0..<k] s ! i =
     (if off \<le> i \<and> i < off + k then f (i - off) else s ! i)"
proof (induction k)
  case 0
  then show ?case by auto
next
  case (Suc k)
  let ?t = "fold (\<lambda>b s. s[off + b := f b]) [0..<k] s"
  have len: "i < length ?t" using Suc.prems by (simp add: length_fold_update)
  have step: "fold (\<lambda>b s. s[off + b := f b]) [0..<Suc k] s = ?t[off + k := f k]"
    by simp
  show ?case
  proof (cases "i = off + k")
    case True
    then show ?thesis using len by (simp only: step nth_list_update_eq) simp
  next
    case False
    then have "?t[off + k := f k] ! i = ?t ! i" by simp
    then show ?thesis using False Suc.IH [OF Suc.prems] by (simp only: step) auto
  qed
qed

lemma length_write3:
  "length (fold (\<lambda>b s. s[g1 b := f1 b, g2 b := f2 b, g3 b := f3 b]) bs s) = length s"
  by (induction bs arbitrary: s) auto

lemma write3_nth:
  "i < length s \<Longrightarrow> o1 + k \<le> o2 \<Longrightarrow> o2 + k \<le> o3 \<Longrightarrow>
   fold (\<lambda>b s. s[o1 + b := f1 b, o2 + b := f2 b, o3 + b := f3 b]) [0..<k] s ! i =
     (if o1 \<le> i \<and> i < o1 + k then f1 (i - o1)
      else if o2 \<le> i \<and> i < o2 + k then f2 (i - o2)
      else if o3 \<le> i \<and> i < o3 + k then f3 (i - o3)
      else s ! i)"
proof (induction k)
  case 0
  then show ?case by auto
next
  case (Suc k)
  let ?t = "fold (\<lambda>b s. s[o1 + b := f1 b, o2 + b := f2 b, o3 + b := f3 b]) [0..<k] s"
  have len: "i < length ?t" using Suc.prems by (simp add: length_write3)
  have step: "fold (\<lambda>b s. s[o1 + b := f1 b, o2 + b := f2 b, o3 + b := f3 b]) [0..<Suc k] s
      = ?t[o1 + k := f1 k, o2 + k := f2 k, o3 + k := f3 k]"
    by simp
  have IH: "?t ! i = (if o1 \<le> i \<and> i < o1 + k then f1 (i - o1)
      else if o2 \<le> i \<and> i < o2 + k then f2 (i - o2)
      else if o3 \<le> i \<and> i < o3 + k then f3 (i - o3)
      else s ! i)"
    using Suc.IH Suc.prems by simp
  consider (a) "i = o1 + k" | (b) "i = o2 + k" | (c) "i = o3 + k"
    | (d) "i \<noteq> o1 + k" "i \<noteq> o2 + k" "i \<noteq> o3 + k" by blast
  then show ?case
  proof cases
    case a
    then have "?t[o1 + k := f1 k, o2 + k := f2 k, o3 + k := f3 k] ! i = f1 k"
      using len Suc.prems by (simp add: nth_list_update)
    then show ?thesis using a by (simp only: step) simp
  next
    case b
    then have "?t[o1 + k := f1 k, o2 + k := f2 k, o3 + k := f3 k] ! i = f2 k"
      using len Suc.prems by (simp add: nth_list_update)
    then show ?thesis using b Suc.prems by (simp only: step) simp
  next
    case c
    then have "?t[o1 + k := f1 k, o2 + k := f2 k, o3 + k := f3 k] ! i = f3 k"
      using len Suc.prems by (simp add: nth_list_update)
    then show ?thesis using c Suc.prems by (simp only: step) simp
  next
    case d
    then have "?t[o1 + k := f1 k, o2 + k := f2 k, o3 + k := f3 k] ! i = ?t ! i"
      by simp
    then show ?thesis using d Suc.prems by (simp only: step IH) auto
  qed
qed

lemma length_writeConversion: "length (writeConversion j c s) = length s"
  by (simp add: writeConversion_def Let_def length_fold_update length_write3)

lemma writeConversion_nth:
  "i < length s \<Longrightarrow>
   writeConversion j c s ! i =
     (if 5 + j * 20 \<le> i \<and> i < 9 + j * 20 then extractByte (purchaseTimestamp c) (i - (5 + j * 20))
      else if 9 + j * 20 \<le> i \<and> i < 13 + j * 20 then extractByte (thresholdTimestamp c) (i - (9 + j * 20))
      else if 13 + j * 20 \<le> i \<and> i < 17 + j * 20 then extractByte (purchaseValue c) (i - (13 + j * 20))
      else if 17 + j * 20 \<le> i \<and> i < 25 + j * 20 then extractByte (purchaseValueSquared c) (i - (17 + j * 20))
      else s ! i)"
  unfolding writeConversion_def Let_def PARTNER_CONVERSION_ROW_SIZE_BYTES_def
  by (simp add: write1_nth write3_nth length_write3)

lemma word8_mod: "(word_of_nat (x mod 256) :: 8 word) = word_of_nat x"
  by (simp add: word_of_nat_eq_iff take_bit_eq_mod)

lemma ucast_word_of_nat: "(ucast (x :: 'a::len word) :: 8 word) = word_of_nat (unat x)"
  by simp

lemma extractByte_unat:
  "extractByte (w :: 'a::len word) i = word_of_nat ((unat w div 256 ^ i) mod 256)"
proof -
  have "unat (drop_bit (8 * i) w) = drop_bit (8 * i) (unat w)"
    by (rule unat_drop_bit_eq)
  also have "\<dots> = unat w div 2 ^ (8 * i)"
    by (rule drop_bit_eq_div)
  finally have "unat (drop_bit (8 * i) w) = unat w div 2 ^ (8 * i)" .
  moreover have "(2::nat) ^ (8 * i) = 256 ^ i"
    by (simp add: power_mult)
  ultimately have "unat (drop_bit (8 * i) w) = unat w div 256 ^ i"
    by simp
  then have "extractByte w i = word_of_nat (unat w div 256 ^ i)"
    unfolding extractByte_def by (simp only: ucast_word_of_nat)
  then show ?thesis by (simp only: word8_mod)
qed

lemma littleEndian_extractByte: "littleEndian k w = map (extractByte w) [0..<k]"
  by (simp add: littleEndian_def extractByte_unat)

lemma length_littleEndian [simp]: "length (littleEndian k w) = k"
  by (simp add: littleEndian_def)

lemma littleEndian_nth: "i < k \<Longrightarrow> littleEndian k w ! i = extractByte w i"
  by (simp add: littleEndian_extractByte)

lemma length_conversionBlock [simp]: "length (conversionBlock c) = 20"
  by (simp add: conversionBlock_def)

lemma conversionBlock_nth:
  "k < 20 \<Longrightarrow> conversionBlock c ! k =
     (if k < 4 then extractByte (purchaseTimestamp c) k
      else if k < 8 then extractByte (thresholdTimestamp c) (k - 4)
      else if k < 12 then extractByte (purchaseValue c) (k - 8)
      else extractByte (purchaseValueSquared c) (k - 12))"
proof -
  assume k: "k < 20"
  consider (a) "k < 4" | (b) "4 \<le> k" "k < 8" | (c) "8 \<le> k" "k < 12" | (d) "12 \<le> k"
    by linarith
  then show ?thesis
  proof cases
    case a
    then show ?thesis by (simp add: conversionBlock_def nth_append littleEndian_nth)
  next
    case b
    then have "k - 4 < 4" "\<not> k < 4" by simp_all
    then show ?thesis using b by (simp add: conversionBlock_def nth_append littleEndian_nth)
  next
    case c
    then have "k - 4 - 4 = k - 8" "k - 8 < 4" "\<not> k - 4 < 4" "\<not> k < 4" "\<not> k < 8"
      by simp_all
    then show ?thesis using c by (simp add: conversionBlock_def nth_append littleEndian_nth)
  next
    case d
    then have "k - 4 - 4 - 4 = k - 12" "k - 12 < 8" "\<not> k - 4 - 4 < 4" "\<not> k - 4 < 4"
      "\<not> k < 4" "\<not> k < 8" "\<not> k < 12"
      using k by simp_all
    then show ?thesis by (simp add: conversionBlock_def nth_append littleEndian_nth)
  qed
qed

lemma writeConversion_block:
  "i < length s \<Longrightarrow>
   writeConversion j c s ! i =
     (if 5 + j * 20 \<le> i \<and> i < 25 + j * 20 then conversionBlock c ! (i - (5 + j * 20))
      else s ! i)"
proof -
  assume i: "i < length s"
  note wc = writeConversion_nth [OF i, of j c]
  consider (lo) "i < 5 + j * 20" | (a) "5 + j * 20 \<le> i" "i < 9 + j * 20"
    | (b) "9 + j * 20 \<le> i" "i < 13 + j * 20" | (c) "13 + j * 20 \<le> i" "i < 17 + j * 20"
    | (d) "17 + j * 20 \<le> i" "i < 25 + j * 20" | (hi) "25 + j * 20 \<le> i"
    by linarith
  then show ?thesis
  proof cases
    case lo
    then show ?thesis by (simp add: wc)
  next
    case a
    then have "i - (5 + j * 20) < 4" by linarith
    then show ?thesis using a by (simp add: wc conversionBlock_nth)
  next
    case b
    then have "\<not> i < 9 + j * 20" "5 + j * 20 \<le> i" "i < 25 + j * 20"
      "\<not> i - (5 + j * 20) < 4" "i - (5 + j * 20) < 8" "i - (5 + j * 20) < 20"
      "i - (5 + j * 20) - 4 = i - (9 + j * 20)" by linarith+
    then show ?thesis using b by (simp add: wc conversionBlock_nth)
  next
    case c
    then have "\<not> i < 9 + j * 20" "\<not> i < 13 + j * 20" "5 + j * 20 \<le> i" "i < 25 + j * 20"
      "\<not> i - (5 + j * 20) < 4" "\<not> i - (5 + j * 20) < 8" "i - (5 + j * 20) < 12"
      "i - (5 + j * 20) < 20"
      "i - (5 + j * 20) - 8 = i - (13 + j * 20)" by linarith+
    then show ?thesis using c by (simp add: wc conversionBlock_nth)
  next
    case d
    then have "\<not> i < 9 + j * 20" "\<not> i < 13 + j * 20" "\<not> i < 17 + j * 20"
      "5 + j * 20 \<le> i"
      "\<not> i - (5 + j * 20) < 4" "\<not> i - (5 + j * 20) < 8" "\<not> i - (5 + j * 20) < 12"
      "i - (5 + j * 20) < 20"
      "i - (5 + j * 20) - 12 = i - (17 + j * 20)" by linarith+
    then show ?thesis using d by (simp add: wc conversionBlock_nth)
  next
    case hi
    then have "\<not> i < 9 + j * 20" "\<not> i < 13 + j * 20" "\<not> i < 17 + j * 20"
      "\<not> i < 25 + j * 20" by linarith+
    then show ?thesis by (simp add: wc)
  qed
qed

lemma length_conversions_loop:
  "length (fold (\<lambda>j s. writeConversion j (cs ! j) s) [0..<m] s) = length s"
  by (induction m) (simp_all add: length_writeConversion)

lemma block_index:
  "5 + m * 20 \<le> (i::nat) \<Longrightarrow> i < 25 + m * 20 \<Longrightarrow>
   (i - 5) div 20 = m \<and> (i - 5) mod 20 = i - (5 + m * 20)"
proof -
  assume a: "5 + m * 20 \<le> i" "i < 25 + m * 20"
  define k where "k = i - (5 + m * 20)"
  have k: "i - 5 = k + m * 20" "k < 20" using a by (simp_all add: k_def)
  show ?thesis unfolding k(1) using k(2) by (simp add: k_def)
qed

lemma conversions_loop_nth:
  "i < length s \<Longrightarrow>
   fold (\<lambda>j s. writeConversion j (cs ! j) s) [0..<m] s ! i =
     (if 5 \<le> i \<and> i < 5 + 20 * m then conversionBlock (cs ! ((i - 5) div 20)) ! ((i - 5) mod 20)
      else s ! i)"
proof (induction m)
  case 0
  then show ?case by auto
next
  case (Suc m)
  let ?t = "fold (\<lambda>j s. writeConversion j (cs ! j) s) [0..<m] s"
  have len: "i < length ?t" using Suc.prems by (simp add: length_conversions_loop)
  have step: "fold (\<lambda>j s. writeConversion j (cs ! j) s) [0..<Suc m] s
      = writeConversion m (cs ! m) ?t"
    by simp
  note wb = writeConversion_block [OF len, of m "cs ! m"]
  note IH = Suc.IH [OF Suc.prems]
  show ?case
  proof (cases "5 + m * 20 \<le> i \<and> i < 25 + m * 20")
    case True
    then have dr: "(i - 5) div 20 = m" "(i - 5) mod 20 = i - (5 + m * 20)"
      using block_index [of m i] by simp_all
    have "5 \<le> i \<and> i < 5 + 20 * Suc m" using True by simp
    then show ?thesis using True by (simp only: step wb dr; simp?)
  next
    case False
    have eq: "writeConversion m (cs ! m) ?t ! i = ?t ! i"
      by (simp only: wb False if_False)
    show ?thesis
    proof (cases "5 \<le> i \<and> i < 5 + 20 * m")
      case True
      then have "5 \<le> i \<and> i < 5 + 20 * Suc m" by simp
      then show ?thesis using True by (simp only: step eq IH; simp?)
    next
      case F2: False
      then have "\<not> (5 \<le> i \<and> i < 5 + 20 * Suc m)" using False by auto
      then show ?thesis using F2 by (simp only: step eq IH; simp?)
    qed
  qed
qed

lemma concat_blocks_nth:
  "k < 20 * length cs \<Longrightarrow>
   concat (map conversionBlock cs) ! k = conversionBlock (cs ! (k div 20)) ! (k mod 20)"
proof (induction cs arbitrary: k)
  case Nil
  then show ?case by simp
next
  case (Cons c cs)
  show ?case
  proof (cases "k < 20")
    case True
    then show ?thesis by (simp add: nth_append)
  next
    case False
    then have k: "k - 20 < 20 * length cs" using Cons.prems by simp
    have k20: "k = (k - 20) + 20" using False by simp
    have d: "k div 20 = Suc ((k - 20) div 20)"
      by (subst k20) (simp only: div_add_self2 zero_neq_numeral not_False_eq_True Suc_eq_plus1)
    have r: "k mod 20 = (k - 20) mod 20"
      by (subst k20) (simp only: mod_add_self2)
    show ?thesis using False Cons.IH [OF k] by (simp add: nth_append d r)
  qed
qed

lemma length_serializePartnerRow:
  "length (serializePartnerRow n r cs) = 5 + 20 * n"
  by (simp add: serializePartnerRow_def Let_def length_conversions_loop
      PARTNER_ROW_SIZE_BYTES_def PARTNER_CONVERSION_ROW_SIZE_BYTES_def)

lemma serializePartnerRow_header:
  "serializePartnerRow n r cs ! 0 = of_bool (anyValidPurchaseTimestamp r)"
  "i < 4 \<Longrightarrow> serializePartnerRow n r cs ! (1 + i) = extractByte (cohortGroupId r) i"
proof -
  let ?s = "(replicate (5 + 20 * n) (0 :: u8))
            [0 := of_bool (anyValidPurchaseTimestamp r),
             1 := extractByte (cohortGroupId r) 0,
             2 := extractByte (cohortGroupId r) 1,
             3 := extractByte (cohortGroupId r) 2,
             4 := extractByte (cohortGroupId r) 3]"
  have eq: "serializePartnerRow n r cs = fold (\<lambda>j s. writeConversion j (cs ! j) s) [0..<n] ?s"
    by (simp add: serializePartnerRow_def Let_def
        PARTNER_ROW_SIZE_BYTES_def PARTNER_CONVERSION_ROW_SIZE_BYTES_def)
  have len: "length ?s = 5 + 20 * n" by simp
  show "serializePartnerRow n r cs ! 0 = of_bool (anyValidPurchaseTimestamp r)"
    unfolding eq by (subst conversions_loop_nth) (simp_all add: nth_list_update)
  assume "i < 4"
  then consider "i = 0" | "i = 1" | "i = 2" | "i = 3" by linarith
  then show "serializePartnerRow n r cs ! (1 + i) = extractByte (cohortGroupId r) i"
    unfolding eq by cases ((subst conversions_loop_nth), simp, simp add: nth_list_update)+
qed

lemma serializePartnerRow_block:
  assumes "j < n" "k < 20"
  shows "serializePartnerRow n r cs ! (5 + j * 20 + k) = conversionBlock (cs ! j) ! k"
proof -
  let ?s = "(replicate (5 + 20 * n) (0 :: u8))
            [0 := of_bool (anyValidPurchaseTimestamp r),
             1 := extractByte (cohortGroupId r) 0,
             2 := extractByte (cohortGroupId r) 1,
             3 := extractByte (cohortGroupId r) 2,
             4 := extractByte (cohortGroupId r) 3]"
  have eq: "serializePartnerRow n r cs = fold (\<lambda>j s. writeConversion j (cs ! j) s) [0..<n] ?s"
    by (simp add: serializePartnerRow_def Let_def
        PARTNER_ROW_SIZE_BYTES_def PARTNER_CONVERSION_ROW_SIZE_BYTES_def)
  have "Suc j \<le> n" using assms by simp
  then have "20 * Suc j \<le> 20 * n" by (rule mult_le_mono2)
  then have lt: "5 + j * 20 + k < 5 + 20 * n" using assms by simp
  then have inr: "5 + j * 20 + k < length ?s" by simp
  have dr: "(5 + j * 20 + k - 5) div 20 = j" "(5 + j * 20 + k - 5) mod 20 = k"
    using assms by simp_all
  show ?thesis
    unfolding eq using lt by (simp only: conversions_loop_nth [OF inr] dr; simp?)
qed

lemma byte_piece:
  "take_bit (8 * k) (w :: 'a::len word) OR push_bit (8 * k) (ucast (extractByte w k)) =
   take_bit (8 * Suc k) w"
  by (rule bit_word_eqI) (auto simp add: extractByte_def bit_simps)

lemma reconstruct_take_bit:
  "(\<And>i. i < k \<Longrightarrow> data ! (off + i) = extractByte (w :: 'a::len word) i) \<Longrightarrow>
   (reconstructFromBytes k data off :: 'a word) = take_bit (8 * k) w"
proof (induction k)
  case 0
  then show ?case by (simp add: reconstructFromBytes_def)
next
  case (Suc k)
  have "(reconstructFromBytes (Suc k) data off :: 'a word) =
        reconstructFromBytes k data off OR push_bit (8 * k) (ucast (data ! (off + k)))"
    by (simp add: reconstructFromBytes_def)
  also have "\<dots> = take_bit (8 * k) w OR push_bit (8 * k) (ucast (extractByte w k))"
    using Suc by simp
  finally show ?case by (simp only: byte_piece)
qed

lemma reconstruct_u32:
  assumes "\<And>i. i < 4 \<Longrightarrow> data ! (off + i) = extractByte (w :: 32 word) i"
  shows "reconstructFromBytes 4 data off = w"
  using reconstruct_take_bit [of 4 data off w] assms by (simp add: take_bit_word_eq_self)

lemma reconstruct_i64:
  assumes "\<And>i. i < 8 \<Longrightarrow> data ! (off + i) = extractByte (w :: 64 word) i"
  shows "reconstructFromBytes 8 data off = w"
  using reconstruct_take_bit [of 8 data off w] assms by (simp add: take_bit_word_eq_self)

lemma deserializeConversion_serialize:
  assumes j: "j < n"
  shows "deserializeConversion (serializePartnerRow n r cs) j = cs ! j"
proof -
  let ?bs = "serializePartnerRow n r cs"
  let ?c = "cs ! j"
  have pts: "reconstructFromBytes 4 ?bs (5 + j * 20) = purchaseTimestamp ?c"
  proof (rule reconstruct_u32)
    fix i :: nat assume "i < 4"
    then show "?bs ! (5 + j * 20 + i) = extractByte (purchaseTimestamp ?c) i"
      using j by (simp add: serializePartnerRow_block conversionBlock_nth)
  qed
  have thr: "reconstructFromBytes 4 ?bs (9 + j * 20) = thresholdTimestamp ?c"
  proof (rule reconstruct_u32)
    fix i :: nat assume i: "i < 4"
    have "9 + j * 20 + i = 5 + j * 20 + (4 + i)" by simp
    then show "?bs ! (9 + j * 20 + i) = extractByte (thresholdTimestamp ?c) i"
      using j i by (simp only: serializePartnerRow_block conversionBlock_nth; simp?)
  qed
  have val: "reconstructFromBytes 4 ?bs (13 + j * 20) = purchaseValue ?c"
  proof (rule reconstruct_u32)
    fix i :: nat assume i: "i < 4"
    have "13 + j * 20 + i = 5 + j * 20 + (8 + i)" by simp
    then show "?bs ! (13 + j * 20 + i) = extractByte (purchaseValue ?c) i"
      using j i by (simp only: serializePartnerRow_block conversionBlock_nth; simp?)
  qed
  have sq: "reconstructFromBytes 8 ?bs (17 + j * 20) = purchaseValueSquared ?c"
  proof (rule reconstruct_i64)
    fix i :: nat assume i: "i < 8"
    have "17 + j * 20 + i = 5 + j * 20 + (12 + i)" by simp
    then show "?bs ! (17 + j * 20 + i) = extractByte (purchaseValueSquared ?c) i"
      using j i by (simp only: serializePartnerRow_block conversionBlock_nth; simp?)
  qed
  show ?thesis
    by (simp add: deserializeConversion_def PARTNER_CONVERSION_ROW_SIZE_BYTES_def pts thr val sq)
qed

lemma of_bool_and_1: "((of_bool b :: u8) AND 1 \<noteq> 0) = b"
  by (cases b) simp_all

lemma deserializePartnerRow_serialize:
  assumes "length cs = n"
  shows "deserializePartnerRow n (serializePartnerRow n r cs) = Inr (r, cs)"
proof -
  let ?bs = "serializePartnerRow n r cs"
  have cohort: "reconstructFromBytes 4 ?bs 1 = cohortGroupId r"
    by (rule reconstruct_u32) (simp only: serializePartnerRow_header)
  then have cohort': "reconstructFromBytes 4 ?bs (Suc 0) = cohortGroupId r"
    by simp
  have "map (deserializeConversion ?bs) [0..<n] = map (\<lambda>j. cs ! j) [0..<n]"
    by (rule map_cong) (simp_all add: deserializeConversion_serialize)
  also have "\<dots> = cs"
    unfolding assms [symmetric] by (rule map_nth)
  finally have convs: "map (deserializeConversion ?bs) [0..<n] = cs" .
  show ?thesis
    by (simp add: deserializePartnerRow_def length_serializePartnerRow
        PARTNER_CONVERSION_ROW_SIZE_BYTES_def serializePartnerRow_header of_bool_and_1
        cohort' convs)
qed

lemma flagByte_bits:
  "(flagByte b c v t AND 1 \<noteq> 0) = b"
  "(drop_bit 1 (flagByte b c v t) AND 1 \<noteq> 0) = c"
  "(drop_bit 2 (flagByte b c v t) AND 1 \<noteq> 0) = v"
  "(drop_bit 3 (flagByte b c v t) AND 1 \<noteq> 0) = t"
  by (cases b; cases c; cases v; cases t; simp add: flagByte_def)+

lemma flagByte_sum:
  "flagByte b c v t = of_bool b + 2 * of_bool c + 4 * of_bool v + 8 * of_bool t"
  by (cases b; cases c; cases v; cases t; simp add: flagByte_def)

lemma length_serializePublisherRow: "length (serializePublisherRow r) = 5"
  by (simp add: serializePublisherRow_def Let_def length_fold_update PUBLISHER_ROW_BYTES_def)

lemma flagByte_bit1: "(drop_bit (Suc 0) (flagByte b c v t) AND 1 \<noteq> 0) = c"
  using flagByte_bits(2) [of b c v t] by simp

lemma serializePublisherRow_nth:
  "serializePublisherRow r ! 0 =
     flagByte (breakdownId r) (controlPopulation r) (isValidOpportunityTimestamp r) (testReach r)"
  "i < 4 \<Longrightarrow> serializePublisherRow r ! (1 + i) = extractByte (opportunityTimestamp r) i"
proof -
  let ?f = "flagByte (breakdownId r) (controlPopulation r) (isValidOpportunityTimestamp r)
     (testReach r)"
  have eq: "serializePublisherRow r =
      fold (\<lambda>byte s. s[1 + byte := extractByte (opportunityTimestamp r) byte]) [0..<4]
        ((replicate 5 (0 :: u8))[0 := ?f])"
    by (simp only: serializePublisherRow_def Let_def PUBLISHER_ROW_BYTES_def flagByte_def)
  show "serializePublisherRow r ! 0 = ?f"
    by (subst eq, subst write1_nth) simp_all
  assume "i < 4"
  then show "serializePublisherRow r ! (1 + i) = extractByte (opportunityTimestamp r) i"
    by (subst eq, subst write1_nth) simp_all
qed

lemma deserializePublisherRow_serialize:
  "deserializePublisherRow (serializePublisherRow r) = Inr r"
proof -
  let ?bs = "serializePublisherRow r"
  have opp: "reconstructFromBytes 4 ?bs 1 = opportunityTimestamp r"
    by (rule reconstruct_u32) (simp only: serializePublisherRow_nth)
  then have opp': "reconstructFromBytes 4 ?bs (Suc 0) = opportunityTimestamp r"
    by simp
  show ?thesis
    by (simp add: deserializePublisherRow_def length_serializePublisherRow
        serializePublisherRow_nth(1) flagByte_bits flagByte_bit1 opp')
qed

lemma serializePublisherRow_layout: "serializePublisherRow r = publisherLayout r"
proof (rule nth_equalityI)
  show "length (serializePublisherRow r) = length (publisherLayout r)"
    by (simp add: length_serializePublisherRow publisherLayout_def)
next
  fix i assume "i < length (serializePublisherRow r)"
  then have "i < 5" by (simp add: length_serializePublisherRow)
  then have "i = 0 \<or> (i = 1 + (i - 1) \<and> i - 1 < 4)" by linarith
  then consider "i = 0" | k where "i = 1 + k" "k < 4"
    by blast
  then show "serializePublisherRow r ! i = publisherLayout r ! i"
  proof cases
    case 1
    then show ?thesis
      by (simp add: serializePublisherRow_nth(1) publisherLayout_def packedFlags_def flagByte_sum)
  next
    case 2
    then show ?thesis
      by (simp only: serializePublisherRow_nth(2)) (simp add: publisherLayout_def littleEndian_nth)
  qed
qed

lemma serializePartnerRow_layout:
  assumes "length cs = n"
  shows "serializePartnerRow n r cs = partnerLayout r cs"
proof (rule nth_equalityI)
  show "length (serializePartnerRow n r cs) = length (partnerLayout r cs)"
    using assms by (simp add: length_serializePartnerRow partnerLayout_def length_concat
        comp_def sum_list_triv)
next
  fix i assume "i < length (serializePartnerRow n r cs)"
  then have i: "i < 5 + 20 * n" by (simp add: length_serializePartnerRow)
  have "i = 0 \<or> (i = 1 + (i - 1) \<and> i - 1 < 4) \<or> 5 \<le> i" by linarith
  then consider "i = 0" | k where "i = 1 + k" "k < 4" | "5 \<le> i"
    by blast
  then show "serializePartnerRow n r cs ! i = partnerLayout r cs ! i"
  proof cases
    case 1
    then show ?thesis
      by (simp add: serializePartnerRow_header(1) partnerLayout_def)
  next
    case 2
    then show ?thesis
      by (simp only: serializePartnerRow_header(2)) (simp add: partnerLayout_def littleEndian_nth nth_append)
  next
    case 3
    define q where "q = i - 5"
    have q: "i = 5 + q" "q < 20 * n" using 3 i by (simp_all add: q_def)
    have qj: "q div 20 < n" "q mod 20 < 20" using q by simp_all
    have "5 + (q div 20) * 20 + q mod 20 = 5 + q" by simp
    then have "serializePartnerRow n r cs ! (5 + q) = conversionBlock (cs ! (q div 20)) ! (q mod 20)"
      using serializePartnerRow_block [OF qj, of r cs] by (simp only:)
    moreover have "partnerLayout r cs ! (5 + q) = concat (map conversionBlock cs) ! q"
      by (simp add: partnerLayout_def nth_append)
    ultimately show ?thesis using q assms by (simp add: concat_blocks_nth)
  qed
qed

lemma upt_0_4: "[0..<4] = [0, 1, 2, 3]"
  by code_simp

lemma upt_0_8: "[0..<8] = [0, 1, 2, 3, 4, 5, 6, 7]"
  by code_simp

lemma packedFlags_flagByte:
  "packedFlags r =
     flagByte (breakdownId r) (controlPopulation r) (isValidOpportunityTimestamp r) (testReach r)"
  by (simp add: packedFlags_def flagByte_sum)

lemma flagByte_bit:
  "bit (flagByte b c v t) 0 = b"
  "bit (flagByte b c v t) 1 = c"
  "bit (flagByte b c v t) 2 = v"
  "bit (flagByte b c v t) 3 = t"
  "flagByte b c v t < 16"
  by (cases b; cases c; cases v; cases t; simp add: flagByte_def)+

section \<open>Round trip\<close>

text \<open>
  Claim C1. Decoding the buffer that the encoding of a row produces gives the row back,
  field for field: for a publisher row the four flags and the opportunity timestamp; for
  a partner row with any number of conversions the flag, the cohort group id and, for
  every conversion, the purchase timestamp, the threshold timestamp, the purchase value
  and the squared purchase value. The number of conversions per user is the length of
  the row's conversion vector, as in the source.
\<close>

theorem roundtrip_encode_decode:
  "deserializePublisherRow (serializePublisherRow publisherRow) = Inr publisherRow \<and>
   deserializePartnerRow (length rowConversions)
     (serializePartnerRow (length rowConversions) partnerRow rowConversions)
     = Inr (partnerRow, rowConversions)"
  by (simp add: deserializePublisherRow_serialize deserializePartnerRow_serialize)

theorem roundtrip_encode_decode_witness:
  "deserializePublisherRow (serializePublisherRow
     \<lparr>breakdownId = True, controlPopulation = False, isValidOpportunityTimestamp = True,
      testReach = False, opportunityTimestamp = 100\<rparr>)
   = Inr \<lparr>breakdownId = True, controlPopulation = False, isValidOpportunityTimestamp = True,
      testReach = False, opportunityTimestamp = 100\<rparr> \<and>
   deserializePartnerRow 2
     (serializePartnerRow 2 \<lparr>anyValidPurchaseTimestamp = True, cohortGroupId = 7\<rparr>
        [\<lparr>purchaseTimestamp = 0, thresholdTimestamp = 0, purchaseValue = 0,
          purchaseValueSquared = 0\<rparr>,
         \<lparr>purchaseTimestamp = 50, thresholdTimestamp = 60, purchaseValue = - 3,
          purchaseValueSquared = 9\<rparr>])
   = Inr (\<lparr>anyValidPurchaseTimestamp = True, cohortGroupId = 7\<rparr>,
        [\<lparr>purchaseTimestamp = 0, thresholdTimestamp = 0, purchaseValue = 0,
          purchaseValueSquared = 0\<rparr>,
         \<lparr>purchaseTimestamp = 50, thresholdTimestamp = 60, purchaseValue = - 3,
          purchaseValueSquared = 9\<rparr>])"
  using roundtrip_encode_decode
    [of "\<lparr>breakdownId = True, controlPopulation = False, isValidOpportunityTimestamp = True,
          testReach = False, opportunityTimestamp = 100\<rparr>"
        "[\<lparr>purchaseTimestamp = 0, thresholdTimestamp = 0, purchaseValue = 0,
           purchaseValueSquared = 0\<rparr>,
          \<lparr>purchaseTimestamp = 50, thresholdTimestamp = 60, purchaseValue = - 3,
           purchaseValueSquared = 9\<rparr>]"
        "\<lparr>anyValidPurchaseTimestamp = True, cohortGroupId = 7\<rparr>"]
  by (simp add: numeral_2_eq_2)

section \<open>Layout\<close>

text \<open>
  Claim C5. An encoded publisher row is one byte that packs breakdownId at bit 0,
  controlPopulation at bit 1, isValidOpportunityTimestamp at bit 2 and testReach at
  bit 3 (and nothing above), followed by the four little-endian bytes of the opportunity
  timestamp. An encoded partner row is one byte carrying anyValidPurchaseTimestamp at
  bit 0, the four little-endian bytes of the cohort group id, and then one block of 20
  bytes for each conversion: 4 bytes purchase timestamp, 4 bytes threshold timestamp,
  4 bytes purchase value, 8 bytes squared purchase value, each little-endian.
\<close>

theorem encode_layout:
  "serializePublisherRow publisherRow =
     [packedFlags publisherRow] @ littleEndian 4 (opportunityTimestamp publisherRow) \<and>
   bit (packedFlags publisherRow) 0 = breakdownId publisherRow \<and>
   bit (packedFlags publisherRow) 1 = controlPopulation publisherRow \<and>
   bit (packedFlags publisherRow) 2 = isValidOpportunityTimestamp publisherRow \<and>
   bit (packedFlags publisherRow) 3 = testReach publisherRow \<and>
   packedFlags publisherRow < 16 \<and>
   serializePartnerRow (length rowConversions) partnerRow rowConversions =
     [of_bool (anyValidPurchaseTimestamp partnerRow)] @
     littleEndian 4 (cohortGroupId partnerRow) @
     concat (map (\<lambda>c. littleEndian 4 (purchaseTimestamp c) @
                       littleEndian 4 (thresholdTimestamp c) @
                       littleEndian 4 (purchaseValue c) @
                       littleEndian 8 (purchaseValueSquared c)) rowConversions)"
proof -
  have "conversionBlock = (\<lambda>c. littleEndian 4 (purchaseTimestamp c) @
      littleEndian 4 (thresholdTimestamp c) @ littleEndian 4 (purchaseValue c) @
      littleEndian 8 (purchaseValueSquared c))"
    by (rule ext) (simp add: conversionBlock_def)
  then have "serializePartnerRow (length rowConversions) partnerRow rowConversions =
     [of_bool (anyValidPurchaseTimestamp partnerRow)] @
     littleEndian 4 (cohortGroupId partnerRow) @
     concat (map (\<lambda>c. littleEndian 4 (purchaseTimestamp c) @
                       littleEndian 4 (thresholdTimestamp c) @
                       littleEndian 4 (purchaseValue c) @
                       littleEndian 8 (purchaseValueSquared c)) rowConversions)"
    using serializePartnerRow_layout [of rowConversions "length rowConversions" partnerRow]
    by (simp add: partnerLayout_def)
  moreover have "serializePublisherRow publisherRow =
     [packedFlags publisherRow] @ littleEndian 4 (opportunityTimestamp publisherRow)"
    by (simp add: serializePublisherRow_layout publisherLayout_def)
  ultimately show ?thesis
    by (simp only: packedFlags_flagByte flagByte_bit simp_thms)
qed

theorem encode_layout_witness:
  "serializePublisherRow
     \<lparr>breakdownId = True, controlPopulation = False, isValidOpportunityTimestamp = True,
      testReach = False, opportunityTimestamp = 258\<rparr> = [5, 2, 1, 0, 0] \<and>
   serializePartnerRow 1 \<lparr>anyValidPurchaseTimestamp = True, cohortGroupId = 7\<rparr>
     [\<lparr>purchaseTimestamp = 50, thresholdTimestamp = 60, purchaseValue = - 2,
       purchaseValueSquared = 1\<rparr>]
   = [1, 7, 0, 0, 0, 50, 0, 0, 0, 60, 0, 0, 0, 254, 255, 255, 255, 1, 0, 0, 0, 0, 0, 0, 0]"
  using encode_layout
    [of "\<lparr>breakdownId = True, controlPopulation = False, isValidOpportunityTimestamp = True,
          testReach = False, opportunityTimestamp = 258\<rparr>"
        "[\<lparr>purchaseTimestamp = 50, thresholdTimestamp = 60, purchaseValue = - 2,
           purchaseValueSquared = 1\<rparr>]"
        "\<lparr>anyValidPurchaseTimestamp = True, cohortGroupId = 7\<rparr>"]
  by (simp add: packedFlags_def littleEndian_def upt_0_4 upt_0_8)

section \<open>Building a row from the padded columns\<close>


lemma makeRowConversions_nth:
  "j < n \<Longrightarrow> makeRowConversions n window pts pvs pvsq ! j =
     \<lparr>purchaseTimestamp = pts ! j,
      thresholdTimestamp = (if 0 < pts ! j then pts ! j + window else 0),
      purchaseValue = ucast (pvs ! j),
      purchaseValueSquared = pvsq ! j\<rparr>"
  by (simp add: makeRowConversions_def)

lemma narrow_uint: "uint (ucast (x :: 64 word) :: 32 word) = uint x mod 2 ^ 32"
  by (simp add: unsigned_ucast_eq take_bit_eq_mod)

lemma narrow_sint: "sint (ucast (x :: 64 word) :: 32 word) = signed_take_bit 31 (sint x)"
  by (rule bit_eqI) (auto simp add: bit_simps min_def)

lemma narrow_bytes: "i < 4 \<Longrightarrow> extractByte (ucast (x :: 64 word) :: 32 word) i = extractByte x i"
  unfolding extractByte_def
  by (rule bit_word_eqI) (auto simp add: bit_simps)

lemma threshold_unat:
  "unat ((p :: 32 word) + w) = (unat p + unat w) mod 2 ^ 32"
  by (simp add: unat_word_ariths)




lemma littleEndian_narrow:
  "littleEndian 4 (ucast (x :: 64 word) :: 32 word) = take 4 (littleEndian 8 x)"
  by (simp add: littleEndian_extractByte upt_0_4 upt_0_8 narrow_bytes)

section \<open>Narrowing of the purchase value\<close>

text \<open>
  Claim C10. For every conversion slot, the purchase value that is encoded is the
  dataset's 64-bit value cast to 32 bits: its low 32 bits, read as two's complement, so a
  value outside the 32-bit signed range wraps around; its four encoded bytes are the low
  four of the eight bytes of the 64-bit value. The squared purchase value keeps all 64
  bits.
\<close>

theorem purchaseValue_narrowing:
  "j < numConversionsPerUser \<Longrightarrow>
   purchaseValue (makeRowConversions numConversionsPerUser window purchaseTimestamps
       purchaseValues purchaseValuesSquared ! j) = ucast (purchaseValues ! j) \<and>
   uint (purchaseValue (makeRowConversions numConversionsPerUser window purchaseTimestamps
       purchaseValues purchaseValuesSquared ! j)) = uint (purchaseValues ! j) mod 2 ^ 32 \<and>
   sint (purchaseValue (makeRowConversions numConversionsPerUser window purchaseTimestamps
       purchaseValues purchaseValuesSquared ! j))
     = signed_take_bit 31 (sint (purchaseValues ! j)) \<and>
   littleEndian 4 (purchaseValue (makeRowConversions numConversionsPerUser window
       purchaseTimestamps purchaseValues purchaseValuesSquared ! j))
     = take 4 (littleEndian 8 (purchaseValues ! j)) \<and>
   purchaseValueSquared (makeRowConversions numConversionsPerUser window purchaseTimestamps
       purchaseValues purchaseValuesSquared ! j) = purchaseValuesSquared ! j"
  by (simp add: makeRowConversions_nth narrow_uint narrow_sint littleEndian_narrow)

theorem purchaseValue_narrowing_witness:
  "(0 :: nat) < 1 \<and>
   sint (purchaseValue (makeRowConversions 1 10 [1] [4294967301] [25] ! 0)) = 5 \<and>
   sint (purchaseValue (makeRowConversions 1 10 [1] [2147483648] [4] ! 0)) = - 2147483648 \<and>
   sint (purchaseValueSquared (makeRowConversions 1 10 [1] [2147483648] [4611686018427387904] ! 0))
     = 4611686018427387904"
  using purchaseValue_narrowing [of 0 1 10 "[1]" "[4294967301]" "[25]"]
    purchaseValue_narrowing [of 0 1 10 "[1]" "[2147483648]" "[4]"]
    purchaseValue_narrowing [of 0 1 10 "[1]" "[2147483648]" "[4611686018427387904]"]
  by simp

section \<open>Threshold timestamp\<close>

text \<open>
  Claim C4. For every conversion slot, the threshold timestamp is the purchase timestamp
  plus the threshold window in 32-bit unsigned arithmetic when the purchase timestamp is
  positive, that is, the sum of the two values modulo \<open>2^32\<close>, also near the largest
  32-bit value, where the sum wraps around; it is 0 when the purchase timestamp is 0.
\<close>

theorem threshold_timestamp:
  "j < numConversionsPerUser \<Longrightarrow>
   purchaseTimestamp (makeRowConversions numConversionsPerUser window purchaseTimestamps
       purchaseValues purchaseValuesSquared ! j) = purchaseTimestamps ! j \<and>
   (0 < purchaseTimestamps ! j \<longrightarrow>
      thresholdTimestamp (makeRowConversions numConversionsPerUser window purchaseTimestamps
          purchaseValues purchaseValuesSquared ! j) = purchaseTimestamps ! j + window \<and>
      unat (thresholdTimestamp (makeRowConversions numConversionsPerUser window
          purchaseTimestamps purchaseValues purchaseValuesSquared ! j))
        = (unat (purchaseTimestamps ! j) + unat window) mod 2 ^ 32) \<and>
   (purchaseTimestamps ! j = 0 \<longrightarrow>
      thresholdTimestamp (makeRowConversions numConversionsPerUser window purchaseTimestamps
          purchaseValues purchaseValuesSquared ! j) = 0)"
  by (simp add: makeRowConversions_nth threshold_unat)

theorem threshold_timestamp_witness:
  "(0 :: nat) < 3 \<and> (1 :: nat) < 3 \<and> (2 :: nat) < 3 \<and>
   thresholdTimestamp (makeRowConversions 3 10 [0, 50, 4294967295] [0, 0, 0] [0, 0, 0] ! 0) = 0 \<and>
   thresholdTimestamp (makeRowConversions 3 10 [0, 50, 4294967295] [0, 0, 0] [0, 0, 0] ! 1) = 60 \<and>
   thresholdTimestamp (makeRowConversions 3 10 [0, 50, 4294967295] [0, 0, 0] [0, 0, 0] ! 2) = 9"
  using threshold_timestamp [of 0 3 10 "[0, 50, 4294967295]" "[0, 0, 0]" "[0, 0, 0]"]
    threshold_timestamp [of 1 3 10 "[0, 50, 4294967295]" "[0, 0, 0]" "[0, 0, 0]"]
    threshold_timestamp [of 2 3 10 "[0, 50, 4294967295]" "[0, 0, 0]" "[0, 0, 0]"]
  by simp


lemma publisherPlaintextRow_Inr:
  "inputIndex < length opp \<Longrightarrow> inputIndex < length ctl \<Longrightarrow> inputIndex < length tst \<Longrightarrow>
   inputIndex < length imp \<Longrightarrow> inputIndex < length bid \<Longrightarrow>
   publisherPlaintextRow opp ctl tst imp bid inputIndex =
     Inr (serializePublisherRow (makePublisherRow opp ctl tst imp bid inputIndex))"
  by (simp add: publisherPlaintextRow_def)

lemma partnerPlaintextRow_Inr:
  "inputIndex < length cohort \<Longrightarrow> inputIndex < length pts \<Longrightarrow> inputIndex < length pvs \<Longrightarrow>
   inputIndex < length pvsq \<Longrightarrow> n \<le> length (pts ! inputIndex) \<Longrightarrow>
   n \<le> length (pvs ! inputIndex) \<Longrightarrow> n \<le> length (pvsq ! inputIndex) \<Longrightarrow>
   partnerPlaintextRow n window cohort pts pvs pvsq inputIndex =
     Inr (serializePartnerRow n
        \<lparr>anyValidPurchaseTimestamp = anyValidPurchaseTimestampOf (pts ! inputIndex),
         cohortGroupId = cohort ! inputIndex\<rparr>
        (makeRowConversions n window (pts ! inputIndex) (pvs ! inputIndex) (pvsq ! inputIndex)))"
  by (simp add: partnerPlaintextRow_def)

section \<open>Derived boolean fields\<close>




section \<open>Counting the matched entries\<close>

lemma expected_fold:
  "fold (\<lambda>ele left. left + (if ele = - 1 then 0 else 1)) xs acc =
     acc + int (length (filter (\<lambda>ele. ele \<noteq> - 1) xs))"
  by (induction xs arbitrary: acc) auto

lemma expectedIntersectionSize_count:
  "expectedIntersectionSize intersectionMap =
     int (length (filter (\<lambda>ele. ele \<noteq> - 1) intersectionMap))"
  by (simp add: expectedIntersectionSize_def expected_fold)

lemma length_filter_eq_iff:
  "(length (filter P xs) = length xs) = (\<forall>x \<in> set xs. P x)"
proof (induction xs)
  case Nil
  then show ?case by simp
next
  case (Cons x xs)
  have le: "length (filter P xs) \<le> length xs" by (rule length_filter_le)
  show ?case
  proof (cases "P x")
    case True
    then show ?thesis using Cons by simp
  next
    case False
    have "length (filter P xs) \<noteq> Suc (length xs)" using le by linarith
    then show ?thesis using False by simp
  qed
qed

lemma string_of_int_nat: "string_of_int (int n) = string_of_nat n"
  by (simp add: string_of_int_def)

lemma checkIntersectionSize_cases:
  assumes "expected = length (filter (\<lambda>ele. ele \<noteq> - 1) intersectionMap)"
  shows "(getBatchSize pub \<noteq> expected \<longrightarrow>
           checkIntersectionSize intersectionMap pub part =
             Inl (RuntimeError (mismatchMessage ''Publisher'' (int expected) (getBatchSize pub))))"
    and "(getBatchSize pub = expected \<and> getBatchSize part \<noteq> expected \<longrightarrow>
           checkIntersectionSize intersectionMap pub part =
             Inl (RuntimeError (mismatchMessage ''Partner'' (int expected) (getBatchSize part))))"
    and "(getBatchSize pub = expected \<and> getBatchSize part = expected \<longrightarrow>
           checkIntersectionSize intersectionMap pub part = Inr (pub, part))"
  using assms by (auto simp: checkIntersectionSize_def expectedIntersectionSize_count)

lemma compactData_outcome:
  "snd (compactData myRole n shareIntFrom dataProcessor intersectionMap plaintextData) =
     checkIntersectionSize intersectionMap
       (perform dataProcessor (fst (fst (compactData myRole n shareIntFrom dataProcessor
          intersectionMap plaintextData))))
       (perform dataProcessor (snd (fst (compactData myRole n shareIntFrom dataProcessor
          intersectionMap plaintextData))))"
  by (simp add: compactData_def Let_def)

lemma compactData_calls:
  "fst (compactData myRole n shareIntFrom dataProcessor intersectionMap plaintextData) =
     exchangerCalls myRole n (shareIntFrom PUBLISHER PARTNER myRole (length plaintextData))
       (shareIntFrom PARTNER PUBLISHER myRole (length plaintextData)) intersectionMap
       plaintextData"
  by (simp add: compactData_def Let_def)

lemma myDataCall_exchangerCalls:
  "myDataCall myRole (exchangerCalls myRole n publisherRows partnerRows intersectionMap
      plaintextData) = ProcessMyData plaintextData (length intersectionMap)"
  by (cases myRole) (simp_all add: myDataCall_def exchangerCalls_def)

section \<open>Consistency validation\<close>

text \<open>
  Claim C6. For every intersection map, compactData takes as expected size the count of
  entries other than \<open>-1\<close>. If the publisher-data buffer returned by the exchanger has
  another batch size, compactData throws an error whose message names the publisher, the
  expected count and the actual count, and returns no pair; otherwise, if the
  partner-data buffer has another batch size, it throws the same message for the
  partner; if both batch sizes are the expected count, it returns the pair of buffers.
\<close>

theorem compactData_consistency_validation:
  assumes "calls = fst (compactData myRole numConversionsPerUser shareIntFrom dataProcessor
             intersectionMap plaintextData)"
    and "publisherDataShares = perform dataProcessor (fst calls)"
    and "partnerDataShares = perform dataProcessor (snd calls)"
    and "expected = length (filter (\<lambda>ele. ele \<noteq> - 1) intersectionMap)"
  shows "expectedIntersectionSize intersectionMap = int expected \<and>
    (getBatchSize publisherDataShares \<noteq> expected \<longrightarrow>
       snd (compactData myRole numConversionsPerUser shareIntFrom dataProcessor
              intersectionMap plaintextData) =
         Inl (RuntimeError
           (''Publisher rows do not match up expected intersection size. Expected '' @
            string_of_nat expected @ '' but got '' @
            string_of_nat (getBatchSize publisherDataShares) @ '' rows.''))) \<and>
    (getBatchSize publisherDataShares = expected \<and>
     getBatchSize partnerDataShares \<noteq> expected \<longrightarrow>
       snd (compactData myRole numConversionsPerUser shareIntFrom dataProcessor
              intersectionMap plaintextData) =
         Inl (RuntimeError
           (''Partner rows do not match up expected intersection size. Expected '' @
            string_of_nat expected @ '' but got '' @
            string_of_nat (getBatchSize partnerDataShares) @ '' rows.''))) \<and>
    (getBatchSize publisherDataShares = expected \<and>
     getBatchSize partnerDataShares = expected \<longrightarrow>
       snd (compactData myRole numConversionsPerUser shareIntFrom dataProcessor
              intersectionMap plaintextData) = Inr (publisherDataShares, partnerDataShares))"
proof -
  have out: "snd (compactData myRole numConversionsPerUser shareIntFrom dataProcessor
      intersectionMap plaintextData) =
      checkIntersectionSize intersectionMap publisherDataShares partnerDataShares"
    unfolding assms(1-3) by (rule compactData_outcome)
  have e: "expectedIntersectionSize intersectionMap = int expected"
    unfolding assms(4) by (rule expectedIntersectionSize_count)
  show ?thesis
    using checkIntersectionSize_cases [OF assms(4), of publisherDataShares partnerDataShares]
    by (simp only: out e simp_thms)
       (simp add: mismatchMessage_def string_of_int_nat)
qed


theorem compactData_consistency_validation_witness:
  "snd (compactData PUBLISHER 2 stubShareIntFrom shortDataProcessor [0, 1, 2] []) =
     Inl (RuntimeError
       ''Partner rows do not match up expected intersection size. Expected 3 but got 2 rows.'') \<and>
   snd (compactData PARTNER 2 stubShareIntFrom shortDataProcessor [0, 1, 2] []) =
     Inl (RuntimeError
       ''Publisher rows do not match up expected intersection size. Expected 3 but got 2 rows.'') \<and>
   snd (compactData PUBLISHER 2 stubShareIntFrom exactDataProcessor [0, 1, 2] []) =
     Inr (\<lparr>getBatchSize = 3, extractStringShare = []\<rparr>,
          \<lparr>getBatchSize = 3, extractStringShare = []\<rparr>)"
proof -
  have c1: "fst (compactData PUBLISHER 2 stubShareIntFrom shortDataProcessor [0, 1, 2] []) =
      (ProcessMyData [] 3, ProcessPeersData 0 [0, 1, 2] 45)"
    and c2: "fst (compactData PARTNER 2 stubShareIntFrom shortDataProcessor [0, 1, 2] []) =
      (ProcessPeersData 0 [0, 1, 2] 5, ProcessMyData [] 3)"
    and c3: "fst (compactData PUBLISHER 2 stubShareIntFrom exactDataProcessor [0, 1, 2] []) =
      (ProcessMyData [] 3, ProcessPeersData 0 [0, 1, 2] 45)"
    by (simp_all add: compactData_calls exchangerCalls_def stubShareIntFrom_def
        PARTNER_ROW_SIZE_BYTES_def PARTNER_CONVERSION_ROW_SIZE_BYTES_def PUBLISHER_ROW_BYTES_def)
  have p1: "perform shortDataProcessor
        (fst (fst (compactData PUBLISHER 2 stubShareIntFrom shortDataProcessor [0, 1, 2] [])))
      = \<lparr>getBatchSize = 3, extractStringShare = []\<rparr>"
    and q1: "perform shortDataProcessor
        (snd (fst (compactData PUBLISHER 2 stubShareIntFrom shortDataProcessor [0, 1, 2] [])))
      = \<lparr>getBatchSize = 2, extractStringShare = []\<rparr>"
    by (simp_all only: c1 fst_conv snd_conv) (simp_all add: shortDataProcessor_def)
  have p2: "perform shortDataProcessor
        (fst (fst (compactData PARTNER 2 stubShareIntFrom shortDataProcessor [0, 1, 2] [])))
      = \<lparr>getBatchSize = 2, extractStringShare = []\<rparr>"
    and q2: "perform shortDataProcessor
        (snd (fst (compactData PARTNER 2 stubShareIntFrom shortDataProcessor [0, 1, 2] [])))
      = \<lparr>getBatchSize = 3, extractStringShare = []\<rparr>"
    by (simp_all only: c2 fst_conv snd_conv) (simp_all add: shortDataProcessor_def)
  have p3: "perform exactDataProcessor
        (fst (fst (compactData PUBLISHER 2 stubShareIntFrom exactDataProcessor [0, 1, 2] [])))
      = \<lparr>getBatchSize = 3, extractStringShare = []\<rparr>"
    and q3: "perform exactDataProcessor
        (snd (fst (compactData PUBLISHER 2 stubShareIntFrom exactDataProcessor [0, 1, 2] [])))
      = \<lparr>getBatchSize = 3, extractStringShare = []\<rparr>"
    by (simp_all only: c3 fst_conv snd_conv) (simp_all add: exactDataProcessor_def)
  show ?thesis
    using compactData_consistency_validation [where myRole = PUBLISHER and numConversionsPerUser = 2
        and shareIntFrom = stubShareIntFrom and dataProcessor = shortDataProcessor
        and intersectionMap = "[0, 1, 2]" and plaintextData = "[]",
        OF refl refl refl refl]
      compactData_consistency_validation [where myRole = PARTNER and numConversionsPerUser = 2
        and shareIntFrom = stubShareIntFrom and dataProcessor = shortDataProcessor
        and intersectionMap = "[0, 1, 2]" and plaintextData = "[]",
        OF refl refl refl refl]
      compactData_consistency_validation [where myRole = PUBLISHER and numConversionsPerUser = 2
        and shareIntFrom = stubShareIntFrom and dataProcessor = exactDataProcessor
        and intersectionMap = "[0, 1, 2]" and plaintextData = "[]",
        OF refl refl refl refl]
    by (simp add: p1 q1 p2 q2 p3 q3)
qed

section \<open>The output size asked of processMyData\<close>

text \<open>
  For either role and every alignment map, the output-size argument that compactData
  passes to \<^verbatim>\<open>processMyData\<close> is the total length of the map (lines 231 and 244);
  it equals the count of entries other than \<open>-1\<close> exactly when the map has no entry
  \<open>-1\<close>.
\<close>

lemma processMyData_argument:
  "outputSizeArgument (myDataCall myRole (fst (compactData myRole numConversionsPerUser
       shareIntFrom dataProcessor intersectionMap plaintextData)))
     = Some (length intersectionMap) \<and>
   (int (length intersectionMap) = expectedIntersectionSize intersectionMap)
     = (- 1 \<notin> set intersectionMap)"
proof -
  have "(length (filter (\<lambda>ele. ele \<noteq> - 1) intersectionMap) = length intersectionMap)
      = (- 1 \<notin> set intersectionMap)"
    by (auto simp: length_filter_eq_iff)
  then have "(int (length intersectionMap) = expectedIntersectionSize intersectionMap)
      = (- 1 \<notin> set intersectionMap)"
    by (auto simp: expectedIntersectionSize_count)
  then show ?thesis
    by (simp add: compactData_calls myDataCall_exchangerCalls)
qed

text \<open>
  The check of lines 247 to 266 asks the buffer that \<^verbatim>\<open>processMyData\<close> returned to
  hold the count of entries other than \<open>-1\<close>. So for a map with an entry \<open>-1\<close>,
  and an exchanger whose \<^verbatim>\<open>processMyData\<close> returns as many rows as it is asked
  for, every run of compactData throws, for either role.
\<close>

lemma honest_exchanger_rejected:
  assumes "- 1 \<in> set intersectionMap"
    and "\<And>rows k. getBatchSize (processMyData dataProcessor rows k) = k"
  shows "\<exists>message. snd (compactData myRole numConversionsPerUser shareIntFrom dataProcessor
            intersectionMap plaintextData) = Inl (RuntimeError message)"
proof -
  have "length (filter (\<lambda>ele. ele \<noteq> - 1) intersectionMap) \<noteq> length intersectionMap"
    using assms(1) by (simp add: length_filter_eq_iff)
  then have ne: "expectedIntersectionSize intersectionMap \<noteq> int (length intersectionMap)"
    by (simp add: expectedIntersectionSize_count)
  show ?thesis
  proof (cases myRole)
    case PUBLISHER
    then show ?thesis
      using ne by (simp add: compactData_def Let_def exchangerCalls_def
          checkIntersectionSize_def assms(2))
  next
    case PARTNER
    then show ?thesis
      using ne by (simp add: compactData_def Let_def exchangerCalls_def
          checkIntersectionSize_def assms(2))
  qed
qed

text \<open>
  Claim C7 says that the output-size argument passed to \<^verbatim>\<open>processMyData\<close> is the
  count of entries of the alignment map other than \<open>-1\<close>, not the total length of
  the map. For the publisher and the alignment map \<open>[0, -1]\<close> the code passes 2, the
  length of the map, while the count is 1; with the exchanger that returns the rows it is
  asked for, the check of the same run then throws.
\<close>

theorem processMyData_argument_failing_input:
  "outputSizeArgument (myDataCall PUBLISHER (fst (compactData PUBLISHER 2 stubShareIntFrom
       exactDataProcessor [0, - 1] []))) = Some 2 \<and>
   expectedIntersectionSize [0, - 1] = 1 \<and>
   outputSizeArgument (myDataCall PUBLISHER (fst (compactData PUBLISHER 2 stubShareIntFrom
       exactDataProcessor [0, - 1] []))) \<noteq> Some (nat (expectedIntersectionSize [0, - 1])) \<and>
   snd (compactData PUBLISHER 2 stubShareIntFrom exactDataProcessor [0, - 1] []) =
     Inl (RuntimeError
       ''Publisher rows do not match up expected intersection size. Expected 1 but got 2 rows.'')"
proof -
  have a: "outputSizeArgument (myDataCall PUBLISHER (fst (compactData PUBLISHER 2
      stubShareIntFrom exactDataProcessor [0, - 1] []))) = Some 2"
    by (simp add: compactData_calls myDataCall_exchangerCalls)
  have b: "expectedIntersectionSize [0, - 1] = 1"
    by (simp add: expectedIntersectionSize_def)
  have c: "snd (compactData PUBLISHER 2 stubShareIntFrom exactDataProcessor [0, - 1] []) =
     Inl (RuntimeError
       ''Publisher rows do not match up expected intersection size. Expected 1 but got 2 rows.'')"
    by (simp add: compactData_def Let_def exchangerCalls_def checkIntersectionSize_def
      expectedIntersectionSize_def exactDataProcessor_def mismatchMessage_def string_of_int_def)
  show ?thesis using a b c by simp
qed

section \<open>Compaction\<close>

lemma foldE_append:
  "foldE f (xs @ ys) s = (case foldE f xs s of Inl e \<Rightarrow> Inl e | Inr s' \<Rightarrow> foldE f ys s')"
  by (induction xs arbitrary: s) (auto split: sum.splits)

lemma foldE_cong:
  "(\<And>x s. x \<in> set xs \<Longrightarrow> f x s = g x s) \<Longrightarrow> foldE f xs s = foldE g xs s"
  by (induction xs arbitrary: s) (auto split: sum.splits)

lemma foldE_nth:
  "foldE (\<lambda>i. g (xs ! i)) [0..<length xs] s = foldE g xs s"
proof (induction xs arbitrary: s rule: rev_induct)
  case Nil
  then show ?case by simp
next
  case (snoc x xs)
  have "foldE (\<lambda>i. g ((xs @ [x]) ! i)) [0..<length xs] s = foldE (\<lambda>i. g (xs ! i)) [0..<length xs] s"
    by (rule foldE_cong) (simp add: nth_append)
  then show ?case
    by (simp add: foldE_append snoc split: sum.splits)
qed

lemma shuffle_loop_positions:
  assumes "length randomPermutation = n"
  shows "foldE (shuffleStep dummyRows randomPermutation) [0..<n] s =
         foldE (shuffleAssign dummyRows) randomPermutation s"
proof -
  have "foldE (shuffleStep dummyRows randomPermutation) [0..<n] s =
        foldE (\<lambda>i. shuffleAssign dummyRows (randomPermutation ! i)) [0..<n] s"
    using assms by (intro foldE_cong) (simp add: shuffleStep_def)
  then show ?thesis
    using foldE_nth [of "shuffleAssign dummyRows" randomPermutation s] assms by simp
qed


lemma shuffle_positions:
  assumes "distinct ps" "\<forall>p \<in> set ps. p < n" "length dummyRows = n" "length m = n"
    and "set ps \<inter> A = {}"
    and "\<forall>p \<in> A. dummyRows ! p \<longrightarrow> m ! p = - 1"
    and "(\<lambda>p. m ! p) ` {p \<in> A. \<not> dummyRows ! p} = {0..<c}"
    and "inj_on (\<lambda>p. m ! p) {p \<in> A. \<not> dummyRows ! p}"
    and "0 \<le> c"
  shows "\<exists>m' c'. foldE (shuffleAssign dummyRows) ps (m, c) = Inr (m', c') \<and>
      length m' = n \<and>
      (\<forall>p \<in> A \<union> set ps. dummyRows ! p \<longrightarrow> m' ! p = - 1) \<and>
      (\<lambda>p. m' ! p) ` {p \<in> A \<union> set ps. \<not> dummyRows ! p} = {0..<c'} \<and>
      inj_on (\<lambda>p. m' ! p) {p \<in> A \<union> set ps. \<not> dummyRows ! p} \<and>
      0 \<le> c'"
  using assms
proof (induction ps arbitrary: m c A)
  case Nil
  then show ?case by simp
next
  case (Cons p ps)
  have p: "p < n" "p \<notin> set ps" "p \<notin> A" using Cons.prems by auto
  let ?B = "{q \<in> A. \<not> dummyRows ! q}"
  show ?case
  proof (cases "dummyRows ! p")
    case True
    let ?m1 = "m[p := - 1]"
    have step: "shuffleAssign dummyRows p (m, c) = Inr (?m1, c)"
      using True p Cons.prems by (simp add: shuffleAssign_def)
    have same: "?m1 ! q = m ! q" if "q \<in> A" for q
    proof (rule nth_list_update_neq)
      show "p \<noteq> q" using that p by blast
    qed
    have B: "{q \<in> insert p A. \<not> dummyRows ! q} = ?B" using True by auto
    have i1: "\<forall>q \<in> insert p A. dummyRows ! q \<longrightarrow> ?m1 ! q = - 1"
      using Cons.prems p by (auto simp: nth_list_update)
    have i2: "(\<lambda>q. ?m1 ! q) ` {q \<in> insert p A. \<not> dummyRows ! q} = {0..<c}"
      unfolding B using Cons.prems(7) same by (auto simp: image_iff)
    have i3: "inj_on (\<lambda>q. ?m1 ! q) {q \<in> insert p A. \<not> dummyRows ! q}"
      unfolding B using Cons.prems(8) same by (auto simp: inj_on_def)
    have "\<exists>m' c'. foldE (shuffleAssign dummyRows) ps (?m1, c) = Inr (m', c') \<and>
      length m' = n \<and>
      (\<forall>q \<in> insert p A \<union> set ps. dummyRows ! q \<longrightarrow> m' ! q = - 1) \<and>
      (\<lambda>q. m' ! q) ` {q \<in> insert p A \<union> set ps. \<not> dummyRows ! q} = {0..<c'} \<and>
      inj_on (\<lambda>q. m' ! q) {q \<in> insert p A \<union> set ps. \<not> dummyRows ! q} \<and>
      0 \<le> c'"
    proof (rule Cons.IH)
      show "distinct ps" using Cons.prems by simp
      show "\<forall>p \<in> set ps. p < n" using Cons.prems by simp
      show "length dummyRows = n" using Cons.prems by simp
      show "length ?m1 = n" using Cons.prems by simp
      show "set ps \<inter> insert p A = {}" using Cons.prems p by auto
      show "\<forall>q \<in> insert p A. dummyRows ! q \<longrightarrow> ?m1 ! q = - 1" by (rule i1)
      show "(\<lambda>q. ?m1 ! q) ` {q \<in> insert p A. \<not> dummyRows ! q} = {0..<c}" by (rule i2)
      show "inj_on (\<lambda>q. ?m1 ! q) {q \<in> insert p A. \<not> dummyRows ! q}" by (rule i3)
      show "0 \<le> c" using Cons.prems by simp
    qed
    then show ?thesis by (simp add: step)
  next
    case False
    let ?m1 = "m[p := c]"
    have step: "shuffleAssign dummyRows p (m, c) = Inr (?m1, c + 1)"
      using False p Cons.prems by (simp add: shuffleAssign_def)
    have same: "?m1 ! q = m ! q" if "q \<in> A" for q
    proof (rule nth_list_update_neq)
      show "p \<noteq> q" using that p by blast
    qed
    have at_p: "?m1 ! p = c" using p Cons.prems by simp
    have B: "{q \<in> insert p A. \<not> dummyRows ! q} = insert p ?B" using False by auto
    have imgB: "(\<lambda>q. ?m1 ! q) ` ?B = {0..<c}"
      using Cons.prems(7) same by (auto simp: image_iff)
    have i1: "\<forall>q \<in> insert p A. dummyRows ! q \<longrightarrow> ?m1 ! q = - 1"
      using Cons.prems False same by auto
    have i2: "(\<lambda>q. ?m1 ! q) ` {q \<in> insert p A. \<not> dummyRows ! q} = {0..<c + 1}"
      unfolding B using imgB at_p Cons.prems(9) by (simp only: image_insert) auto
    have injB: "inj_on (\<lambda>q. ?m1 ! q) ?B"
      using Cons.prems(8) same by (auto simp: inj_on_def)
    have "p \<notin> ?B" using p by simp
    then have i3: "inj_on (\<lambda>q. ?m1 ! q) {q \<in> insert p A. \<not> dummyRows ! q}"
      unfolding B using injB imgB at_p by (simp add: inj_on_insert)
    have "\<exists>m' c'. foldE (shuffleAssign dummyRows) ps (?m1, c + 1) = Inr (m', c') \<and>
      length m' = n \<and>
      (\<forall>q \<in> insert p A \<union> set ps. dummyRows ! q \<longrightarrow> m' ! q = - 1) \<and>
      (\<lambda>q. m' ! q) ` {q \<in> insert p A \<union> set ps. \<not> dummyRows ! q} = {0..<c'} \<and>
      inj_on (\<lambda>q. m' ! q) {q \<in> insert p A \<union> set ps. \<not> dummyRows ! q} \<and>
      0 \<le> c'"
    proof (rule Cons.IH)
      show "distinct ps" using Cons.prems by simp
      show "\<forall>p \<in> set ps. p < n" using Cons.prems by simp
      show "length dummyRows = n" using Cons.prems by simp
      show "length ?m1 = n" using Cons.prems by simp
      show "set ps \<inter> insert p A = {}" using Cons.prems p by auto
      show "\<forall>q \<in> insert p A. dummyRows ! q \<longrightarrow> ?m1 ! q = - 1" by (rule i1)
      show "(\<lambda>q. ?m1 ! q) ` {q \<in> insert p A. \<not> dummyRows ! q} = {0..<c + 1}" by (rule i2)
      show "inj_on (\<lambda>q. ?m1 ! q) {q \<in> insert p A. \<not> dummyRows ! q}" by (rule i3)
      show "0 \<le> c + 1" using Cons.prems by simp
    qed
    then show ?thesis by (simp add: step)
  qed
qed


lemma count_not_flagged:
  "card {p. p < length dummyRows \<and> \<not> dummyRows ! p} =
     length dummyRows - length (filter (\<lambda>flag. flag) dummyRows)"
proof -
  have "length (filter (\<lambda>flag. \<not> flag) dummyRows) =
      card {p. p < length dummyRows \<and> \<not> dummyRows ! p}"
    by (rule length_filter_conv_card)
  moreover have "length (filter (\<lambda>flag. flag) dummyRows) +
      length (filter (\<lambda>flag. \<not> flag) dummyRows) = length dummyRows"
    by (rule sum_length_filter_compl)
  ultimately show ?thesis by linarith
qed

text \<open>
  Claim C2. For every row count \<open>n\<close>, every vector of \<open>n\<close> padding flags with
  \<open>d\<close> rows flagged, and every permutation of \<open>0 .. n-1\<close> returned by the secure
  permutation, shuffleAndGetUnionMap returns a map of length \<open>n\<close> that has the
  sentinel \<open>-1\<close> at the position of every padding row, and whose entries other than
  the sentinel are pairwise distinct and form exactly the set \<open>0 .. n-d-1\<close>.
\<close>

theorem compaction_correctness:
  assumes "length (getDummyRows inputData) = getNumRows inputData"
    and "distinct randomPermutation"
    and "set randomPermutation = {0..<getNumRows inputData}"
  shows "\<exists>unionMap. shuffleAndGetUnionMap inputData randomPermutation = Inr unionMap \<and>
     length unionMap = getNumRows inputData \<and>
     (\<forall>p < getNumRows inputData. getDummyRows inputData ! p \<longrightarrow> unionMap ! p = - 1) \<and>
     (\<forall>p < getNumRows inputData. \<forall>q < getNumRows inputData.
        p \<noteq> q \<and> unionMap ! p \<noteq> - 1 \<and> unionMap ! q \<noteq> - 1 \<longrightarrow> unionMap ! p \<noteq> unionMap ! q) \<and>
     {x \<in> set unionMap. x \<noteq> - 1} =
       {0..<int (getNumRows inputData - length (filter (\<lambda>flag. flag) (getDummyRows inputData)))}"
proof -
  let ?n = "getNumRows inputData"
  let ?dummy = "getDummyRows inputData"
  let ?N = "{p. p < ?n \<and> \<not> ?dummy ! p}"
  have len: "length randomPermutation = ?n"
    using distinct_card [OF assms(2)] assms(3) by simp
  have "\<exists>m' c'. foldE (shuffleAssign ?dummy) randomPermutation (replicate ?n 0, 0) = Inr (m', c') \<and>
      length m' = ?n \<and>
      (\<forall>p \<in> {} \<union> set randomPermutation. ?dummy ! p \<longrightarrow> m' ! p = - 1) \<and>
      (\<lambda>p. m' ! p) ` {p \<in> {} \<union> set randomPermutation. \<not> ?dummy ! p} = {0..<c'} \<and>
      inj_on (\<lambda>p. m' ! p) {p \<in> {} \<union> set randomPermutation. \<not> ?dummy ! p} \<and>
      0 \<le> c'"
    by (rule shuffle_positions) (use assms in simp_all)
  then obtain m' c' where
    run: "foldE (shuffleAssign ?dummy) randomPermutation (replicate ?n 0, 0) = Inr (m', c')"
    and lm: "length m' = ?n"
    and sent: "\<forall>p < ?n. ?dummy ! p \<longrightarrow> m' ! p = - 1"
    and img: "(\<lambda>p. m' ! p) ` ?N = {0..<c'}"
    and inj: "inj_on (\<lambda>p. m' ! p) ?N"
    and c0: "0 \<le> c'"
    using assms(3) by auto
  have res: "shuffleAndGetUnionMap inputData randomPermutation = Inr m'"
    using run len by (simp add: shuffleAndGetUnionMap_def shuffle_loop_positions)
  have "card ((\<lambda>p. m' ! p) ` ?N) = card ?N" using inj by (rule card_image)
  then have "card ?N = nat c'" using img by simp
  then have c': "c' = int (?n - length (filter (\<lambda>flag. flag) ?dummy))"
    using c0 count_not_flagged [of ?dummy] assms(1) by simp
  have nonneg: "0 \<le> m' ! p" if "p \<in> ?N" for p
  proof -
    have "m' ! p \<in> {0..<c'}" using that img by blast
    then show ?thesis by simp
  qed
  have real: "p \<in> ?N" if "p < ?n" "m' ! p \<noteq> - 1" for p
    using that sent by auto
  have distinct_entries: "\<forall>p < ?n. \<forall>q < ?n.
      p \<noteq> q \<and> m' ! p \<noteq> - 1 \<and> m' ! q \<noteq> - 1 \<longrightarrow> m' ! p \<noteq> m' ! q"
  proof (intro allI impI)
    fix p q assume "p < ?n" "q < ?n" and h: "p \<noteq> q \<and> m' ! p \<noteq> - 1 \<and> m' ! q \<noteq> - 1"
    then have "p \<in> ?N" "q \<in> ?N" using real by simp_all
    then show "m' ! p \<noteq> m' ! q" using inj h by (auto dest: inj_onD)
  qed
  have "{x \<in> set m'. x \<noteq> - 1} = (\<lambda>p. m' ! p) ` ?N"
  proof (intro equalityI subsetI)
    fix x assume "x \<in> {x \<in> set m'. x \<noteq> - 1}"
    then obtain p where "p < ?n" "m' ! p = x" "x \<noteq> - 1"
      using lm by (auto simp: in_set_conv_nth)
    then show "x \<in> (\<lambda>p. m' ! p) ` ?N" using real by blast
  next
    fix x assume "x \<in> (\<lambda>p. m' ! p) ` ?N"
    then obtain p where p: "p \<in> ?N" "x = m' ! p" by blast
    then have "0 \<le> x" using nonneg by simp
    moreover have "x \<in> set m'" using p lm by simp
    ultimately show "x \<in> {x \<in> set m'. x \<noteq> - 1}" by simp
  qed
  then have entries: "{x \<in> set m'. x \<noteq> - 1} =
      {0..<int (?n - length (filter (\<lambda>flag. flag) ?dummy))}"
    using img c' by simp
  show ?thesis
    using res lm sent distinct_entries entries by blast
qed


theorem compaction_correctness_witness:
  "length (getDummyRows fiveRowDataset) = getNumRows fiveRowDataset \<and>
   distinct [3, 0, 4, 2, 1 :: nat] \<and>
   set [3, 0, 4, 2, 1 :: nat] = {0..<getNumRows fiveRowDataset} \<and>
   (\<exists>unionMap. shuffleAndGetUnionMap fiveRowDataset [3, 0, 4, 2, 1] = Inr unionMap \<and>
      length unionMap = 5 \<and> unionMap ! 1 = - 1 \<and> unionMap ! 4 = - 1 \<and>
      {x \<in> set unionMap. x \<noteq> - 1} = {0..<3})"
proof -
  have v: "getNumRows fiveRowDataset = 5"
    "getDummyRows fiveRowDataset = [False, True, False, False, True]"
    by (simp_all add: fiveRowDataset_def)
  have h1: "length (getDummyRows fiveRowDataset) = getNumRows fiveRowDataset"
    by (simp add: v)
  have h2: "distinct [3, 0, 4, 2, 1 :: nat]" by simp
  have h3: "set [3, 0, 4, 2, 1 :: nat] = {0..<getNumRows fiveRowDataset}"
    unfolding v by auto
  obtain unionMap where
    r: "shuffleAndGetUnionMap fiveRowDataset [3, 0, 4, 2, 1] = Inr unionMap"
    and l: "length unionMap = getNumRows fiveRowDataset"
    and s: "\<forall>p < getNumRows fiveRowDataset.
      getDummyRows fiveRowDataset ! p \<longrightarrow> unionMap ! p = - 1"
    and e: "{x \<in> set unionMap. x \<noteq> - 1} = {0..<int (getNumRows fiveRowDataset -
      length (filter (\<lambda>flag. flag) (getDummyRows fiveRowDataset)))}"
    using compaction_correctness [OF h1 h2 h3] by blast
  have "unionMap ! 1 = - 1" using s [rule_format, of 1] by (simp add: v)
  moreover have "unionMap ! 4 = - 1" using s [rule_format, of 4] by (simp add: v)
  moreover have "{x \<in> set unionMap. x \<noteq> - 1} = {0..<3}" using e by (simp add: v)
  moreover have "length unionMap = 5" using l by (simp add: v)
  ultimately show ?thesis using r h1 h2 h3 by blast
qed


section \<open>Number of encoded rows\<close>

lemma length_mapE: "mapE f xs = Inr ys \<Longrightarrow> length ys = length xs"
  by (induction xs arbitrary: ys) (auto split: sum.splits)

lemma reverseUnionMapStep_skip:
  "\<not> 0 \<le> unionMap ! i \<Longrightarrow> reverseUnionMapStep unionMap i (rmap, s) = Inr (rmap, s)"
  by (simp add: reverseUnionMapStep_def)

lemma reverseUnionMapStep_store:
  "0 \<le> unionMap ! i \<Longrightarrow> reverseUnionMapStep unionMap i (rmap, s) =
     (if nat (unionMap ! i) < length rmap
      then Inr (rmap[nat (unionMap ! i) := i], max s (unionMap ! i)) else Inl OutOfBounds)"
  by (simp add: reverseUnionMapStep_def)

lemma reverse_loop_inputSize:
  "foldE (reverseUnionMapStep unionMap) ixs (rmap, s) = Inr (rmap', s') \<Longrightarrow>
   s \<le> s' \<and> (\<forall>i \<in> set ixs. 0 \<le> unionMap ! i \<longrightarrow> unionMap ! i \<le> s') \<and>
   (s' = s \<or> (\<exists>i \<in> set ixs. 0 \<le> unionMap ! i \<and> s' = unionMap ! i))"
proof (induction ixs arbitrary: rmap s)
  case Nil
  then show ?case by simp
next
  case (Cons i ixs)
  show ?case
  proof (cases "0 \<le> unionMap ! i")
    case False
    have "foldE (reverseUnionMapStep unionMap) ixs (rmap, s) = Inr (rmap', s')"
      using Cons.prems by (simp only: foldE.simps reverseUnionMapStep_skip [OF False] sum.case)
    from Cons.IH [OF this] show ?thesis using False by auto
  next
    case True
    have "foldE (reverseUnionMapStep unionMap) ixs
        (rmap[nat (unionMap ! i) := i], max s (unionMap ! i)) = Inr (rmap', s')"
      using Cons.prems
      by (simp only: foldE.simps reverseUnionMapStep_store [OF True] split: if_splits)
         (simp_all only: sum.case sum.distinct)
    from Cons.IH [OF this] have
      a: "max s (unionMap ! i) \<le> s'"
      and b: "\<forall>j \<in> set ixs. 0 \<le> unionMap ! j \<longrightarrow> unionMap ! j \<le> s'"
      and c: "s' = max s (unionMap ! i) \<or> (\<exists>j \<in> set ixs. 0 \<le> unionMap ! j \<and> s' = unionMap ! j)"
      by blast+
    have "s \<le> s'" "unionMap ! i \<le> s'" using a by simp_all
    moreover have "s' = s \<or> (\<exists>j \<in> set (i # ixs). 0 \<le> unionMap ! j \<and> s' = unionMap ! j)"
    proof (cases "s' = max s (unionMap ! i)")
      case m: True
      then show ?thesis using True by (cases "s \<le> unionMap ! i") (simp_all add: max_def)
    next
      case False
      then show ?thesis using c by auto
    qed
    ultimately show ?thesis using b by simp
  qed
qed


lemma length_mapE_if:
  "(if b then mapE f xs else mapE g xs) = Inr ys \<Longrightarrow> length ys = length xs"
  by (cases b) (simp_all add: length_mapE)

lemma preparePlaintextData_length:
  assumes "preparePlaintextData myRole n window inputData unionMap = Inr rows"
  shows "\<exists>rmap s. foldE (reverseUnionMapStep unionMap) [0..<length unionMap]
            (replicate (getNumRows inputData) 0, 0) = Inr (rmap, s) \<and>
          length rows = nat (s + 1)"
proof (cases "foldE (reverseUnionMapStep unionMap) [0..<length unionMap]
            (replicate (getNumRows inputData) 0, 0)")
  case (Inl e)
  then show ?thesis using assms by (simp add: preparePlaintextData_def)
next
  case (Inr st)
  obtain rmap s where st: "st = (rmap, s)" by (cases st)
  have "length rows = length [0..<nat (s + 1)]"
    using assms
    unfolding preparePlaintextData_def Let_def Inr st sum.case prod.case
    by (rule length_mapE_if)
  then show ?thesis using Inr st by simp
qed


lemma preparePlaintextData_row_count:
  assumes "{x \<in> set unionMap. x \<noteq> - 1} = {0..<int k}"
    and "preparePlaintextData myRole n window inputData unionMap = Inr rows"
  shows "length rows = (if k = 0 then 1 else k)"
proof -
  obtain rmap s where run: "foldE (reverseUnionMapStep unionMap) [0..<length unionMap]
      (replicate (getNumRows inputData) 0, 0) = Inr (rmap, s)"
    and len: "length rows = nat (s + 1)"
    using preparePlaintextData_length [OF assms(2)] by blast
  from reverse_loop_inputSize [OF run] have
    upper_all: "\<forall>i \<in> set [0..<length unionMap]. 0 \<le> unionMap ! i \<longrightarrow> unionMap ! i \<le> s"
    and attained: "s = 0 \<or>
      (\<exists>i \<in> set [0..<length unionMap]. 0 \<le> unionMap ! i \<and> s = unionMap ! i)"
    by blast+
  have entries: "x < int k" if "x \<in> set unionMap" "0 \<le> x" for x
  proof -
    have "x \<in> {x \<in> set unionMap. x \<noteq> - 1}" using that by simp
    then show ?thesis unfolding assms(1) by simp
  qed
  show ?thesis
  proof (cases "k = 0")
    case True
    have "s = 0"
    proof (rule ccontr)
      assume "s \<noteq> 0"
      then obtain i where "i < length unionMap" "0 \<le> unionMap ! i" using attained by auto
      then show False using entries [of "unionMap ! i"] True by simp
    qed
    then show ?thesis using len True by simp
  next
    case False
    then have "int k - 1 \<in> {x \<in> set unionMap. x \<noteq> - 1}" unfolding assms(1) by simp
    then obtain i where i: "i < length unionMap" "unionMap ! i = int k - 1"
      by (auto simp: in_set_conv_nth)
    have "i \<in> set [0..<length unionMap]" "0 \<le> unionMap ! i" using i False by simp_all
    then have "unionMap ! i \<le> s" using upper_all by blast
    then have lower: "int k - 1 \<le> s" using i by simp
    have upper: "s \<le> int k - 1"
    proof (cases "s = 0")
      case True
      then show ?thesis using False by simp
    next
      case F: False
      then obtain j where "j < length unionMap" "0 \<le> unionMap ! j" "s = unionMap ! j"
        using attained by auto
      then show ?thesis using entries [of "unionMap ! j"] by simp
    qed
    show ?thesis using lower upper len False by simp
  qed
qed


lemma mapE_returns:
  "(\<And>x. x \<in> set xs \<Longrightarrow> \<exists>y. f x = Inr y) \<Longrightarrow> \<exists>ys. mapE f xs = Inr ys"
proof (induction xs)
  case Nil
  then show ?case by simp
next
  case (Cons x xs)
  obtain y where y: "f x = Inr y" using Cons.prems by auto
  obtain ys where ys: "mapE f xs = Inr ys" using Cons by auto
  show ?case by (simp add: y ys)
qed

lemma reverse_loop_returns:
  assumes "\<forall>i \<in> set ixs. 0 \<le> unionMap ! i \<longrightarrow> nat (unionMap ! i) < length rmap"
    and "\<forall>x \<in> set rmap. x < b" and "\<forall>i \<in> set ixs. i < b"
  shows "\<exists>rmap' s'. foldE (reverseUnionMapStep unionMap) ixs (rmap, s) = Inr (rmap', s') \<and>
     length rmap' = length rmap \<and> (\<forall>x \<in> set rmap'. x < b)"
  using assms
proof (induction ixs arbitrary: rmap s)
  case Nil
  then show ?case by simp
next
  case (Cons i ixs)
  show ?case
  proof (cases "0 \<le> unionMap ! i")
    case False
    have "\<exists>rmap' s'. foldE (reverseUnionMapStep unionMap) ixs (rmap, s) = Inr (rmap', s') \<and>
        length rmap' = length rmap \<and> (\<forall>x \<in> set rmap'. x < b)"
      by (rule Cons.IH) (use Cons.prems in simp_all)
    then show ?thesis
      by (simp only: foldE.simps reverseUnionMapStep_skip [OF False] sum.case)
  next
    case True
    let ?r = "rmap[nat (unionMap ! i) := i]"
    have inr: "nat (unionMap ! i) < length rmap" using Cons.prems True by simp
    have "set ?r \<subseteq> insert i (set rmap)" by (rule set_update_subset_insert)
    then have small: "\<forall>x \<in> set ?r. x < b" using Cons.prems by auto
    have "\<exists>rmap' s'. foldE (reverseUnionMapStep unionMap) ixs (?r, max s (unionMap ! i))
          = Inr (rmap', s') \<and>
        length rmap' = length ?r \<and> (\<forall>x \<in> set rmap'. x < b)"
      by (rule Cons.IH) (use Cons.prems small in simp_all)
    then show ?thesis
      using inr by (simp only: foldE.simps reverseUnionMapStep_store [OF True] if_True sum.case)
        simp
  qed
qed

lemma resize_bound:
  "\<forall>x \<in> set v. x < b \<Longrightarrow> 0 < b \<Longrightarrow> \<forall>x \<in> set (resize v n). x < b"
  by (auto simp: resize_def dest: in_set_takeD)

lemma length_resize: "length (resize v n) = n"
  by (simp add: resize_def)

lemma length_padArray: "padSize \<le> length (padArray xs padSize v)"
  by (simp add: padArray_def)

lemma padNestedArrays_inner:
  assumes "i < length (padNestedArrays xss outer inner v)"
  shows "inner \<le> length (padNestedArrays xss outer inner v ! i)"
proof (cases "i < length xss")
  case True
  then show ?thesis by (simp add: padNestedArrays_def padArray_def nth_append)
next
  case False
  then show ?thesis using assms by (simp add: padNestedArrays_def padArray_def nth_append)
qed

lemma length_padNestedArrays: "outer \<le> length (padNestedArrays xss outer inner v)"
  by (simp add: padNestedArrays_def padArray_def)


lemma index_in_padArray: "i < padSize \<Longrightarrow> i < length (padArray xs padSize v)"
  using length_padArray [of padSize xs v] by linarith

lemma index_in_padNestedArrays:
  "i < outer \<Longrightarrow> i < length (padNestedArrays xss outer inner v)"
  using length_padNestedArrays [of outer xss inner v] by linarith

lemma padNestedArrays_row:
  "i < outer \<Longrightarrow> inner \<le> length (padNestedArrays xss outer inner v ! i)"
  by (rule padNestedArrays_inner) (rule index_in_padNestedArrays)

lemma preparePlaintextData_returns:
  assumes "length unionMap = getNumRows inputData" and "0 < getNumRows inputData"
    and "\<forall>x \<in> set unionMap. x < int (getNumRows inputData)"
  shows "\<exists>rows. preparePlaintextData myRole n window inputData unionMap = Inr rows"
proof -
  let ?N = "getNumRows inputData"
  have "\<exists>rmap' s'. foldE (reverseUnionMapStep unionMap) [0..<length unionMap]
        (replicate ?N 0, 0) = Inr (rmap', s') \<and>
      length rmap' = length (replicate ?N (0 :: nat)) \<and> (\<forall>x \<in> set rmap'. x < ?N)"
  proof (rule reverse_loop_returns)
    show "\<forall>i \<in> set [0..<length unionMap]. 0 \<le> unionMap ! i \<longrightarrow>
        nat (unionMap ! i) < length (replicate ?N (0 :: nat))"
      using assms by (auto simp: nat_less_iff)
    show "\<forall>x \<in> set (replicate ?N (0 :: nat)). x < ?N" using assms by simp
    show "\<forall>i \<in> set [0..<length unionMap]. i < ?N" using assms by simp
  qed
  then obtain rmap s where
    run: "foldE (reverseUnionMapStep unionMap) [0..<length unionMap] (replicate ?N 0, 0)
      = Inr (rmap, s)"
    and small: "\<forall>x \<in> set rmap. x < ?N"
    by blast
  let ?size = "nat (s + 1)"
  let ?r = "resize rmap ?size"
  have idx: "?r ! i < ?N" if "i \<in> set [0..<?size]" for i
  proof -
    have "i < length ?r" using that by (simp add: length_resize)
    then have "?r ! i \<in> set ?r" by (rule nth_mem)
    then show ?thesis using resize_bound [OF small assms(2), of ?size] by blast
  qed
  have pub: "\<exists>y. publisherPlaintextRow
      (padArray (getOpportunityTimestamps inputData) ?N 0)
      (padArray (getControlPopulation inputData) ?N False)
      (padArray (getTestPopulation inputData) ?N False)
      (padArray (getNumImpressions inputData) ?N 0)
      (padArray (getBreakdownIds inputData) ?N 0) (?r ! i) = Inr y"
    if "i \<in> set [0..<?size]" for i
    using idx [OF that] by (simp add: publisherPlaintextRow_Inr index_in_padArray)
  have par: "\<exists>y. partnerPlaintextRow n window
      (padArray (getGroupIds inputData) ?N 0)
      (padNestedArrays (getPurchaseTimestampArrays inputData) ?N n 0)
      (padNestedArrays (getPurchaseValueArrays inputData) ?N n 0)
      (padNestedArrays (getPurchaseValueSquaredArrays inputData) ?N n 0) (?r ! i) = Inr y"
    if "i \<in> set [0..<?size]" for i
    using idx [OF that]
    by (simp add: partnerPlaintextRow_Inr index_in_padArray index_in_padNestedArrays
        padNestedArrays_row)
  show ?thesis
  proof (cases "myRole = PARTNER")
    case True
    then show ?thesis
      unfolding preparePlaintextData_def Let_def run sum.case prod.case
      using mapE_returns [of "[0..<?size]", OF par] by simp
  next
    case False
    then show ?thesis
      unfolding preparePlaintextData_def Let_def run sum.case prod.case
      using mapE_returns [of "[0..<?size]", OF pub] by simp
  qed
qed

lemma preparePlaintextData_rows:
  assumes "length unionMap = getNumRows inputData" and "0 < getNumRows inputData"
    and "{x \<in> set unionMap. x \<noteq> - 1} = {0..<int k}"
  shows "\<exists>rows. preparePlaintextData myRole n window inputData unionMap = Inr rows \<and>
     length rows = (if k = 0 then 1 else k)"
proof -
  have "card {x \<in> set unionMap. x \<noteq> - 1} \<le> card (set unionMap)"
    by (rule card_mono) auto
  also have "\<dots> \<le> length unionMap" by (rule card_length)
  finally have k: "k \<le> getNumRows inputData" using assms(1) unfolding assms(3) by simp
  have "x < int (getNumRows inputData)" if "x \<in> set unionMap" for x
  proof (cases "x = - 1")
    case True
    then show ?thesis by simp
  next
    case False
    then have "x \<in> {0..<int k}" using that assms(3) by blast
    then show ?thesis using k by simp
  qed
  then obtain rows where
    rows: "preparePlaintextData myRole n window inputData unionMap = Inr rows"
    using preparePlaintextData_returns [OF assms(1,2), of myRole n window] by blast
  then show ?thesis using preparePlaintextData_row_count [OF assms(3) rows] by simp
qed


text \<open>
  A dataset whose only row is padding gives the union map \<open>[-1]\<close>.
\<close>

lemma shuffle_padding_only:
  "shuffleAndGetUnionMap paddingOnlyDataset [0] = Inr [- 1]"
  by (simp add: shuffleAndGetUnionMap_def paddingOnlyDataset_def shuffleStep_def
      shuffleAssign_def)


lemma padding_only_reverse_loop:
  "foldE (reverseUnionMapStep [- 1]) [0..<length [- 1 :: int]] (replicate 1 0, 0) = Inr ([0], 0)"
  by (simp add: reverseUnionMapStep_skip)

lemma padding_only_row:
  "publisherPlaintextRow [0] [False] [False] [0] [0] 0 = Inr [0, 0, 0, 0, 0]"
  by (simp add: publisherPlaintextRow_def makePublisherRow_def
      serializePublisherRow_layout publisherLayout_def packedFlags_def littleEndian_def
      upt_0_4)

text \<open>
  Claim C8 says that for a union map whose entries other than the sentinel form
  \<open>0 .. k-1\<close>, preparePlaintextData returns exactly \<open>k\<close> encoded rows, also for
  \<open>k = 0\<close>. The code returns \<open>k\<close> rows for every \<open>k \<ge> 1\<close>
  (\<open>preparePlaintextData_rows\<close>). For the union
  map \<open>[-1]\<close> of a dataset whose only row is padding, where \<open>k = 0\<close>, the code
  returns one encoded row: \<open>inputSize\<close> is still 0 after the loop and is then
  incremented.
\<close>

theorem preparePlaintextData_padding_only:
  "{x \<in> set [- 1 :: int]. x \<noteq> - 1} = {0..<int 0} \<and>
   preparePlaintextData PUBLISHER 0 10 paddingOnlyDataset [- 1] = Inr [[0, 0, 0, 0, 0]] \<and>
   length [[0, 0, 0, 0, 0 :: u8]] \<noteq> 0"
proof -
  have v: "getNumRows paddingOnlyDataset = 1"
    "getOpportunityTimestamps paddingOnlyDataset = [0]"
    "getControlPopulation paddingOnlyDataset = [False]"
    "getTestPopulation paddingOnlyDataset = [False]"
    "getNumImpressions paddingOnlyDataset = [0]"
    "getBreakdownIds paddingOnlyDataset = [0]"
    by (simp_all add: paddingOnlyDataset_def)
  have "preparePlaintextData PUBLISHER 0 10 paddingOnlyDataset [- 1] = Inr [[0, 0, 0, 0, 0]]"
    unfolding preparePlaintextData_def Let_def v padding_only_reverse_loop
    by (simp add: resize_def padArray_def padding_only_row)
  then show ?thesis by simp
qed

section \<open>A row with more purchase timestamps than conversions per user\<close>








end
